theory Spec2Isabelle
  imports Main
begin

section \<open>Values, identifiers and media descriptors\<close>

text \<open>
  The client keeps a table of remote room members (\<open>remoteUsers\<close> in \<open>App.vue\<close>), one
  receive-only \<open>PCWrap\<close> per member and one send-only \<open>PCWrap\<close> for the local
  publication. Objects that the TypeScript shares by reference (remote users, wrappers,
  media streams, tracks) live in explicit stores indexed by natural numbers.

  Strings are lists of characters, each character standing for one code unit. Payload
  fields typed \<open>any\<close> are values of \<open>jsval\<close>; numbers are the integers, which is what
  the server's numeric user ids are.
\<close>

datatype jsval = JStr string | JNum int | JNull | JUndefined

datatype media_kind = Audio | Video

datatype PCDirection = SendOnly | RecvOnly | SendRecv

datatype error =
    OpenDevicesRecvOnly
  | AddTransceiversNotRecvOnly
  | NoTransceivers
  | PcNotInitialized
  | DeviceError string
  | NegotiationError string
  | NotConnected
  | PeerClosed
  | AlreadyConnected
  | ConnectFailed
  | RequestRejected string
  | PullFailed int string
  | UserNotFound string
  | TypeError

subsection \<open>\<open>String(id)\<close>, \<open>trim\<close> and \<open>normalizeId\<close>\<close>

definition digit_char :: "nat \<Rightarrow> char" where
  "digit_char d = ''0123456789'' ! d"

function string_of_nat :: "nat \<Rightarrow> string" where
  "string_of_nat n =
     (if n < 10 then [digit_char n] else string_of_nat (n div 10) @ [digit_char (n mod 10)])"
  by pat_completeness auto
termination
  by (relation "measure (\<lambda>n. n)") auto

text \<open>\<open>String(v)\<close>: a string is itself, an integer is written in decimal.\<close>

fun String :: "jsval \<Rightarrow> string" where
  "String (JStr s) = s"
| "String (JNum i) = (if i < 0 then CHR ''-'' # string_of_nat (nat (- i)) else string_of_nat (nat i))"
| "String JNull = ''null''"
| "String JUndefined = ''undefined''"

text \<open>
  The white space that \<open>String.prototype.trim\<close> removes, as far as it lies among the
  first 256 code points: tab, line feed, vertical tab, form feed, carriage return, space
  and no-break space.
\<close>

definition is_ws :: "char \<Rightarrow> bool" where
  "is_ws c = (of_char c \<in> {9::nat, 10, 11, 12, 13, 32, 160})"

definition trim :: "string \<Rightarrow> string" where
  "trim s = rev (dropWhile is_ws (rev (dropWhile is_ws s)))"

text \<open>
  \<open>normalizeId\<close> (App.vue, lines 107-113). The Unicode normaliser \<open>normalize('NFC')\<close>
  belongs to the platform and is the parameter \<open>nfc\<close>. With the form \<open>'NFC'\<close> it does not
  throw, so the \<open>catch\<close> branch of the source is never taken.
\<close>

definition normalizeId :: "(string \<Rightarrow> string) \<Rightarrow> jsval \<Rightarrow> string" where
  "normalizeId nfc v = nfc (trim (String v))"

text \<open>
  What the proofs need of the normaliser: normalising twice is normalising once, and
  normalising a trimmed string leaves it trimmed (no canonical composition or
  decomposition yields white space from other characters).
\<close>

definition nfc_stable :: "(string \<Rightarrow> string) \<Rightarrow> bool" where
  "nfc_stable nfc \<longleftrightarrow> (\<forall>s. nfc (nfc s) = nfc s) \<and> (\<forall>s. trim (nfc (trim s)) = nfc (trim s))"

section \<open>The peer-connection wrapper (\<open>PCWrap.ts\<close>)\<close>

text \<open>
  A track is an object of the platform: its kind never changes, so the kind is part of
  the reference; its \<open>enabled\<close> flag is mutable and lives in the application state.
\<close>

type_synonym track = "media_kind \<times> nat"

record RecvTransceiverSpec =
  spec_type :: media_kind
  pusher_id :: string

text \<open>
  \<open>RTCRtpTransceiver\<close>: \<open>mid\<close> is \<open>null\<close> until negotiation; the sender carries a
  track only when the transceiver came from \<open>pc.addTrack\<close>.
\<close>

record RTCRtpTransceiver =
  t_kind :: media_kind
  t_direction :: PCDirection
  t_mid :: "string option"
  t_sender_track :: "track option"

record RTCPeerConnection =
  transceivers :: "RTCRtpTransceiver list"
  localDescription :: "string option"
  remoteDescription :: "string option"

datatype video_constraint = VideoOff | VideoAny | VideoIdeal nat nat

record MediaStreamConstraints =
  audio :: bool
  video :: video_constraint

text \<open>
  The wrapper object. \<open>trackListeners\<close> are the listeners registered with
  \<open>on('track', ...)\<close>, in registration order; each is named by the subscribe call that
  registered it. Of the constructor's options only \<open>direction\<close> and
  \<open>mediaConstraints\<close> influence the functions below.
\<close>

record PCWrap =
  pc :: "RTCPeerConnection option"
  localStream :: "nat option"
  direction :: PCDirection
  recvMap :: "(string \<times> string) list"
  mediaConstraints :: "MediaStreamConstraints option"
  trackListeners :: "nat list"

definition PCWrap_new :: "PCDirection option \<Rightarrow> PCWrap" where
  "PCWrap_new d =
     \<lparr>pc = None, localStream = None,
      direction = (case d of Some x \<Rightarrow> x | None \<Rightarrow> SendOnly),
      recvMap = [], mediaConstraints = None, trackListeners = []\<rparr>"

definition RTCPeerConnection_new :: RTCPeerConnection where
  "RTCPeerConnection_new = \<lparr>transceivers = [], localDescription = None, remoteDescription = None\<rparr>"

text \<open>\<open>pc.addTrack(track, stream)\<close>: a new sender, hence a new transceiver, for the track.\<close>

definition pc_addTrack :: "track \<Rightarrow> RTCPeerConnection \<Rightarrow> RTCPeerConnection" where
  "pc_addTrack t p =
     p\<lparr>transceivers := transceivers p @
        [\<lparr>t_kind = fst t, t_direction = SendRecv, t_mid = None, t_sender_track = Some t\<rparr>]\<rparr>"

text \<open>\<open>pc.addTransceiver(kind, {direction: 'recvonly', ...})\<close>.\<close>

definition pc_addTransceiver :: "media_kind \<Rightarrow> RTCPeerConnection \<Rightarrow> RTCPeerConnection" where
  "pc_addTransceiver k p =
     p\<lparr>transceivers := transceivers p @
        [\<lparr>t_kind = k, t_direction = RecvOnly, t_mid = None, t_sender_track = None\<rparr>]\<rparr>"

text \<open>
  \<open>initPeerConnection\<close> (lines 168-204); \<open>gt\<close> gives the tracks of a stream object
  (\<open>getTracks\<close>). An existing connection is returned as it is.
\<close>

definition initPeerConnection :: "(nat \<Rightarrow> track list) \<Rightarrow> PCWrap \<Rightarrow> PCWrap" where
  "initPeerConnection gt w =
     (case pc w of
        Some p \<Rightarrow> w
      | None \<Rightarrow>
          (let p = RTCPeerConnection_new;
               p' = (if direction w = RecvOnly then p
                     else (case localStream w of
                             Some s \<Rightarrow> foldl (\<lambda>q t. pc_addTrack t q) p (gt s)
                           | None \<Rightarrow> p))
           in w\<lparr>pc := Some p'\<rparr>))"

text \<open>\<open>attachLocalTracks\<close> (lines 209-216): the senders are read once, before the loop.\<close>

definition attachLocalTracks :: "(nat \<Rightarrow> track list) \<Rightarrow> PCWrap \<Rightarrow> PCWrap" where
  "attachLocalTracks gt w =
     (case (pc w, localStream w) of
        (Some p, Some s) \<Rightarrow>
          (let senders = map t_sender_track (transceivers p);
               missing = filter (\<lambda>t. \<not> (\<exists>x \<in> set senders. case x of Some t' \<Rightarrow> fst t' = fst t | None \<Rightarrow> False)) (gt s)
           in w\<lparr>pc := Some (foldl (\<lambda>q t. pc_addTrack t q) p missing)\<rparr>)
      | _ \<Rightarrow> w)"

text \<open>\<open>setLocalStream\<close> (lines 101-107).\<close>

definition setLocalStream :: "(nat \<Rightarrow> track list) \<Rightarrow> nat \<Rightarrow> PCWrap \<Rightarrow> PCWrap" where
  "setLocalStream gt s w =
     (let w' = w\<lparr>localStream := Some s\<rparr>
      in if pc w' \<noteq> None then attachLocalTracks gt w' else w')"

text \<open>
  \<open>openDevices\<close> (lines 121-137). \<open>gum\<close> is the platform's \<open>getUserMedia\<close>: for given
  constraints it fails or hands out a new stream object. The third component of the
  result is the log of the invocations of \<open>getUserMedia\<close>.
\<close>

definition default_constraints :: MediaStreamConstraints where
  "default_constraints = \<lparr>audio = True, video = VideoAny\<rparr>"

definition openDevices ::
  "(MediaStreamConstraints \<Rightarrow> error + nat) \<Rightarrow> MediaStreamConstraints option \<Rightarrow> PCWrap \<Rightarrow>
   MediaStreamConstraints list \<Rightarrow> (error + nat) \<times> PCWrap \<times> MediaStreamConstraints list" where
  "openDevices gum constraints w log =
     (case localStream w of
        Some s \<Rightarrow> (Inr s, w, log)
      | None \<Rightarrow>
          if direction w = RecvOnly then (Inl OpenDevicesRecvOnly, w, log)
          else
            (let mc = (case constraints of
                         Some c \<Rightarrow> c
                       | None \<Rightarrow> (case mediaConstraints w of Some c \<Rightarrow> c | None \<Rightarrow> default_constraints))
             in case gum mc of
                  Inr s \<Rightarrow> (Inr s, w\<lparr>localStream := Some s\<rparr>, log @ [mc])
                | Inl e \<Rightarrow> (Inl e, w, log @ [mc])))"

text \<open>
  \<open>addTransceivers\<close> (lines 144-162). A spec whose \<open>pusher_id\<close> is already a key of
  \<open>recvMap\<close> is skipped; the stored value is \<open>transceiver.mid || ''\<close>, and \<open>mid\<close> is
  \<open>null\<close> at this point.
\<close>

fun addTransceivers_loop ::
  "RecvTransceiverSpec list \<Rightarrow> RTCPeerConnection \<times> (string \<times> string) list \<Rightarrow>
   RTCPeerConnection \<times> (string \<times> string) list" where
  "addTransceivers_loop [] acc = acc"
| "addTransceivers_loop (sp # specs) (p, m) =
     (if pusher_id sp \<in> set (map fst m) then addTransceivers_loop specs (p, m)
      else addTransceivers_loop specs
             (pc_addTransceiver (spec_type sp) p, m @ [(pusher_id sp, [])]))"

definition addTransceivers ::
  "(nat \<Rightarrow> track list) \<Rightarrow> RecvTransceiverSpec list \<Rightarrow> PCWrap \<Rightarrow> error + PCWrap" where
  "addTransceivers gt specs w =
     (if direction w \<noteq> RecvOnly then Inl AddTransceiversNotRecvOnly
      else
        (let w1 = initPeerConnection gt w
         in case pc w1 of
              None \<Rightarrow> Inl PcNotInitialized
            | Some p \<Rightarrow>
                (let (p', m') = addTransceivers_loop specs (p, recvMap w1)
                 in Inr (w1\<lparr>pc := Some p', recvMap := m'\<rparr>))))"

text \<open>
  \<open>createOfferAndEmit\<close> (lines 222-248). The part before the first \<open>await\<close> creates the
  connection if need be and, in receive-only mode, throws when it has no transceiver.
  \<open>offer\<close> is the outcome of \<open>createOffer\<close>, \<open>setLocalDescription\<close> and, without
  trickle ICE, of the wait for the candidates: an SDP text or a failure.
\<close>

definition createOffer_prepare :: "(nat \<Rightarrow> track list) \<Rightarrow> PCWrap \<Rightarrow> error option \<times> PCWrap" where
  "createOffer_prepare gt w =
     (let w1 = initPeerConnection gt w
      in if direction w1 = RecvOnly then
           (case pc w1 of
              None \<Rightarrow> (Some PcNotInitialized, w1)
            | Some p \<Rightarrow> if length (transceivers p) = 0 then (Some NoTransceivers, w1) else (None, w1))
         else (None, attachLocalTracks gt w1))"

definition createOffer_finish :: "error + string \<Rightarrow> PCWrap \<Rightarrow> (error + string) \<times> PCWrap" where
  "createOffer_finish offer w =
     (case offer of
        Inl e \<Rightarrow> (Inl e, w)
      | Inr sdp \<Rightarrow>
          (case pc w of
             None \<Rightarrow> (Inl (NegotiationError ''closed''), w)
           | Some p \<Rightarrow> (Inr sdp, w\<lparr>pc := Some (p\<lparr>localDescription := Some sdp\<rparr>)\<rparr>)))"

definition createOfferAndEmit ::
  "(nat \<Rightarrow> track list) \<Rightarrow> error + string \<Rightarrow> PCWrap \<Rightarrow> (error + string) \<times> PCWrap" where
  "createOfferAndEmit gt offer w =
     (case createOffer_prepare gt w of
        (Some e, w1) \<Rightarrow> (Inl e, w1)
      | (None, w1) \<Rightarrow> createOffer_finish offer w1)"

text \<open>\<open>setRemoteDescription\<close> (lines 260-273).\<close>

definition setRemoteDescription :: "string \<Rightarrow> PCWrap \<Rightarrow> error + PCWrap" where
  "setRemoteDescription answer w =
     (case pc w of
        None \<Rightarrow> Inl PcNotInitialized
      | Some p \<Rightarrow> Inr (w\<lparr>pc := Some (p\<lparr>remoteDescription := Some answer\<rparr>)\<rparr>))"

text \<open>\<open>close\<close> (lines 298-309): the connection and the local stream are dropped.\<close>

definition close :: "PCWrap \<Rightarrow> PCWrap" where
  "close w = w\<lparr>pc := None, localStream := None\<rparr>"

text \<open>\<open>on('track', listener)\<close> and the function it returns, which removes the listener.\<close>

definition on_track :: "nat \<Rightarrow> PCWrap \<Rightarrow> PCWrap" where
  "on_track c w = w\<lparr>trackListeners := trackListeners w @ [c]\<rparr>"

definition unsubscribe :: "nat \<Rightarrow> PCWrap \<Rightarrow> PCWrap" where
  "unsubscribe c w = w\<lparr>trackListeners := filter (\<lambda>x. x \<noteq> c) (trackListeners w)\<rparr>"

subsection \<open>The capture device (\<open>Device\<close>)\<close>

record Device =
  stream :: "nat option"
  defaultConstraints :: "MediaStreamConstraints option"

definition Device_openDevices ::
  "(MediaStreamConstraints \<Rightarrow> error + nat) \<Rightarrow> MediaStreamConstraints option \<Rightarrow> Device \<Rightarrow>
   MediaStreamConstraints list \<Rightarrow> (error + nat) \<times> Device \<times> MediaStreamConstraints list" where
  "Device_openDevices gum constraints d log =
     (case stream d of
        Some s \<Rightarrow> (Inr s, d, log)
      | None \<Rightarrow>
          (let fc = (case constraints of
                       Some c \<Rightarrow> c
                     | None \<Rightarrow> (case defaultConstraints d of Some c \<Rightarrow> c | None \<Rightarrow> default_constraints))
           in case gum fc of
                Inr s \<Rightarrow> (Inr s, d\<lparr>stream := Some s\<rparr>, log @ [fc])
              | Inl e \<Rightarrow> (Inl e, d, log @ [fc])))"

section \<open>The application state (\<open>App.vue\<close>)\<close>

text \<open>
  Of the \<open>rtpParam\<close> bundle only \<open>av_type\<close> is read by the client; the other fields are
  carried along unchanged, and four of them stand for the bundle here.
\<close>

record RtpParam =
  av_type :: media_kind
  codec :: string
  payload_type :: nat
  ssrc :: nat

record Pusher =
  rtpParam :: RtpParam
  pusherId :: string

datatype conn_state = Connected | Disconnected

text \<open>
  \<open>RemoteUser\<close>: the optional fields are \<open>None\<close> while \<open>undefined\<close>; \<open>videoRef\<close>,
  \<open>receivePcWrap\<close> and \<open>playStream\<close> are references into the stores of the state.
\<close>

record RemoteUser =
  userId :: string
  userName :: "string option"
  pushers :: "Pusher list"
  videoRef :: "nat option"
  receivePcWrap :: "nat option"
  playStream :: "nat option"
  videoMuted :: "bool option"
  audioMuted :: "bool option"
  state :: "conn_state option"

text \<open>The server's user payload: \<open>{ userId, userName, pushers }\<close>, each field possibly absent.\<close>

record UserPayload =
  p_userId :: jsval
  p_userName :: "string option"
  p_pushers :: "Pusher list option"

record ChatMessage =
  m_userId :: string
  m_userName :: jsval
  m_message :: string
  m_self :: bool
  m_time :: nat

record HTMLVideoElement =
  srcObject :: "nat option"
  muted :: bool
  opacity :: string
  playsInline :: bool

datatype ws_status = WsDisconnected | WsConnected | WsJoined

text \<open>
  One activation of \<open>pullRemoteUser\<close>. \<open>c_user\<close> is the object bound to the local
  \<open>remoteUser\<close>, \<open>c_wrap\<close> the wrapper whose \<open>createOfferAndEmit\<close> the activation
  called, \<open>c_tracks\<close> the local array \<open>tracks\<close>. The stage says at which \<open>await\<close> the
  activation stands, or how it ended.
\<close>

datatype stage = AwaitOffer | AwaitPull | AwaitTracks | Resolved | Done | Rejected error

record pull_call =
  c_user :: nat
  c_wrap :: nat
  c_roomId :: string
  c_targetUserId :: string
  c_specs :: "RecvTransceiverSpec list"
  c_tracks :: "track list"
  c_stage :: stage

text \<open>
  The state: the reactive variables of the component, the signalling client's \<open>peer\<close>
  (\<open>None\<close> is \<open>null\<close>, \<open>Some closed\<close> a peer with its \<open>closed\<close> flag), the object
  stores, the activations of \<open>pullRemoteUser\<close>, and what the user and the platform
  have seen: the \<open>alert\<close> texts and the invocations of \<open>getUserMedia\<close>.
  \<open>videoEl\<close> is the local preview element, given by its \<open>srcObject\<close> when mounted.
  \<open>captureTracks\<close> are the tracks of the platform's capture streams. In the initial
  state the component is mounted: the preview element is there and has no source.
\<close>

record app_state =
  wsStatus :: ws_status
  peer :: "bool option"
  roomId :: string
  sendPcWarp :: "nat option"
  videoEl :: "nat option option"
  remoteUsers :: "nat list"
  chatMessages :: "ChatMessage list"
  users :: "nat \<Rightarrow> RemoteUser option"
  pcwraps :: "nat \<Rightarrow> PCWrap option"
  streams :: "nat \<Rightarrow> track list option"
  videoEls :: "nat \<Rightarrow> HTMLVideoElement option"
  trackEnabled :: "track \<Rightarrow> bool"
  captureTracks :: "nat \<Rightarrow> track list"
  nextRef :: nat
  calls :: "pull_call list"
  alerts :: "string list"
  gumLog :: "MediaStreamConstraints list"

definition init_state :: "string \<Rightarrow> app_state" where
  "init_state room =
     \<lparr>wsStatus = WsDisconnected, peer = None, roomId = room, sendPcWarp = None,
      videoEl = Some None, remoteUsers = [], chatMessages = [],
      users = (\<lambda>_. None), pcwraps = (\<lambda>_. None), streams = (\<lambda>_. None),
      videoEls = (\<lambda>_. None), trackEnabled = (\<lambda>_. True), captureTracks = (\<lambda>_. []),
      nextRef = 0, calls = [], alerts = [], gumLog = []\<rparr>"

definition truthy :: "bool option \<Rightarrow> bool" where
  "truthy b = (b = Some True)"

definition specs_of :: "Pusher list \<Rightarrow> RecvTransceiverSpec list" where
  "specs_of ps = map (\<lambda>p. \<lparr>spec_type = av_type (rtpParam p), pusher_id = pusherId p\<rparr>) ps"

subsection \<open>\<open>createRemoteUser\<close> and \<open>upsertRemoteUser\<close>\<close>

text \<open>
  \<open>createRemoteUser\<close> (lines 137-159). With at least one pusher the new user gets a
  receive-only wrapper with one transceiver per pusher, an empty play stream and both
  mute flags \<open>false\<close>. The result is the reference of the new object, or the exception
  of \<open>addTransceivers\<close>.
\<close>

definition createRemoteUser ::
  "(string \<Rightarrow> string) \<Rightarrow> UserPayload \<Rightarrow> app_state \<Rightarrow> (error + nat) \<times> app_state" where
  "createRemoteUser nfc user st =
     (let remoteUser =
            \<lparr>userId = normalizeId nfc (p_userId user), userName = p_userName user,
             pushers = (case p_pushers user of Some ps \<Rightarrow> ps | None \<Rightarrow> []),
             videoRef = None, receivePcWrap = None, playStream = None,
             videoMuted = None, audioMuted = None, state = None\<rparr>;
          r = nextRef st
      in if length (pushers remoteUser) > 0 then
           (let w = r + 1; s = r + 2
            in case addTransceivers (captureTracks st) (specs_of (pushers remoteUser))
                      (PCWrap_new (Some RecvOnly)) of
                 Inl e \<Rightarrow> (Inl e, st)
               | Inr pw \<Rightarrow>
                   (Inr r,
                    st\<lparr>users := (users st)(r := Some (remoteUser
                            \<lparr>receivePcWrap := Some w, playStream := Some s,
                             videoMuted := Some False, audioMuted := Some False\<rparr>)),
                       pcwraps := (pcwraps st)(w := Some pw),
                       streams := (streams st)(s := Some []),
                       nextRef := r + 3\<rparr>))
         else (Inr r, st\<lparr>users := (users st)(r := Some remoteUser), nextRef := r + 1\<rparr>))"

text \<open>The search of lines 169-176 and 178: the first entry whose normalised id is the payload's.\<close>

definition same_id :: "(string \<Rightarrow> string) \<Rightarrow> app_state \<Rightarrow> jsval \<Rightarrow> nat \<Rightarrow> bool" where
  "same_id nfc st v r =
     (case users st r of
        Some u \<Rightarrow> normalizeId nfc (JStr (userId u)) = normalizeId nfc v
      | None \<Rightarrow> False)"

text \<open>
  \<open>upsertRemoteUser\<close> (lines 167-213). For an existing user the name is overwritten
  when the payload has one, the payload's pushers whose id was not among the stored
  ones (as they stood before the loop) are appended, and the wrapper is extended or
  created. The result is the reference of the user, or the exception of
  \<open>addTransceivers\<close> with the changes made up to it.
\<close>

definition upsertRemoteUser ::
  "(string \<Rightarrow> string) \<Rightarrow> UserPayload \<Rightarrow> app_state \<Rightarrow> (error + nat) \<times> app_state" where
  "upsertRemoteUser nfc user st =
     (case find (same_id nfc st (p_userId user)) (remoteUsers st) of
        Some r \<Rightarrow>
          (case users st r of
             None \<Rightarrow> (Inr r, st)
           | Some existing \<Rightarrow>
               (let newPushers = (case p_pushers user of Some ps \<Rightarrow> ps | None \<Rightarrow> []);
                    pusherIds = set (map pusherId (pushers existing));
                    added = filter (\<lambda>p. pusherId p \<notin> pusherIds) newPushers;
                    e1 = existing
                           \<lparr>userName := (case p_userName user of Some n \<Rightarrow> Some n | None \<Rightarrow> userName existing),
                            pushers := pushers existing @ added\<rparr>;
                    st1 = st\<lparr>users := (users st)(r := Some e1)\<rparr>
                in case receivePcWrap e1 of
                     Some w \<Rightarrow>
                       if length newPushers > 0 \<and> length (specs_of added) > 0 then
                         (case pcwraps st1 w of
                            None \<Rightarrow> (Inr r, st1)
                          | Some pw \<Rightarrow>
                              (case addTransceivers (captureTracks st1) (specs_of added) pw of
                                 Inl e \<Rightarrow> (Inl e, st1)
                               | Inr pw' \<Rightarrow> (Inr r, st1\<lparr>pcwraps := (pcwraps st1)(w := Some pw')\<rparr>)))
                       else (Inr r, st1)
                   | None \<Rightarrow>
                       if length (pushers e1) > 0 then
                         (let w = nextRef st1; s = nextRef st1 + 1;
                              e2 = e1\<lparr>receivePcWrap := Some w, playStream := Some s\<rparr>;
                              st2 = st1\<lparr>users := (users st1)(r := Some e2),
                                        streams := (streams st1)(s := Some []),
                                        nextRef := nextRef st1 + 2\<rparr>
                          in case addTransceivers (captureTracks st1) (specs_of (pushers e1))
                                    (PCWrap_new (Some RecvOnly)) of
                               Inl e \<Rightarrow> (Inl e, st2\<lparr>pcwraps := (pcwraps st2)(w := Some (PCWrap_new (Some RecvOnly)))\<rparr>)
                             | Inr pw \<Rightarrow> (Inr r, st2\<lparr>pcwraps := (pcwraps st2)(w := Some pw)\<rparr>))
                       else (Inr r, st1)))
      | None \<Rightarrow>
          (case createRemoteUser nfc user st of
             (Inl e, st') \<Rightarrow> (Inl e, st')
           | (Inr r, st') \<Rightarrow> (Inr r, st'\<lparr>remoteUsers := remoteUsers st' @ [r]\<rparr>)))"

subsection \<open>Mute control\<close>

definition upd_videoEl :: "nat \<Rightarrow> (HTMLVideoElement \<Rightarrow> HTMLVideoElement) \<Rightarrow> app_state \<Rightarrow> app_state" where
  "upd_videoEl v f st =
     (case videoEls st v of
        Some el \<Rightarrow> st\<lparr>videoEls := (videoEls st)(v := Some (f el))\<rparr>
      | None \<Rightarrow> st)"

text \<open>
  \<open>setTrackEnabledForUser\<close> (lines 216-231): every track of the kind in the user's play
  stream gets the flag; then the video element, if any, is muted or dimmed.
\<close>

definition setTrackEnabledForUser :: "nat \<Rightarrow> media_kind \<Rightarrow> bool \<Rightarrow> app_state \<Rightarrow> app_state" where
  "setTrackEnabledForUser r k enabled st =
     (case users st r of
        None \<Rightarrow> st
      | Some user \<Rightarrow>
          (let st1 = (case playStream user of
                        Some s \<Rightarrow>
                          (case streams st s of
                             Some ts \<Rightarrow>
                               st\<lparr>trackEnabled :=
                                    (\<lambda>t. if t \<in> set ts \<and> fst t = k then enabled else trackEnabled st t)\<rparr>
                           | None \<Rightarrow> st)
                      | None \<Rightarrow> st);
               st2 = (case videoRef user of
                        Some v \<Rightarrow> if k = Audio then upd_videoEl v (\<lambda>el. el\<lparr>muted := \<not> enabled\<rparr>) st1 else st1
                      | None \<Rightarrow> st1)
           in (case videoRef user of
                 Some v \<Rightarrow>
                   if k = Video
                   then upd_videoEl v (\<lambda>el. el\<lparr>opacity := (if enabled then ''1'' else ''0.45'')\<rparr>) st2
                   else st2
               | None \<Rightarrow> st2)))"

text \<open>\<open>toggleAudioMute\<close> and \<open>toggleVideoMute\<close> (lines 233-241), on the user object \<open>r\<close>.\<close>

definition toggleAudioMute :: "nat \<Rightarrow> app_state \<Rightarrow> app_state" where
  "toggleAudioMute r st =
     (case users st r of
        None \<Rightarrow> st
      | Some user \<Rightarrow>
          (let m = \<not> truthy (audioMuted user)
           in setTrackEnabledForUser r Audio (\<not> m)
                (st\<lparr>users := (users st)(r := Some (user\<lparr>audioMuted := Some m\<rparr>))\<rparr>)))"

definition toggleVideoMute :: "nat \<Rightarrow> app_state \<Rightarrow> app_state" where
  "toggleVideoMute r st =
     (case users st r of
        None \<Rightarrow> st
      | Some user \<Rightarrow>
          (let m = \<not> truthy (videoMuted user)
           in setTrackEnabledForUser r Video (\<not> m)
                (st\<lparr>users := (users st)(r := Some (user\<lparr>videoMuted := Some m\<rparr>))\<rparr>)))"

text \<open>
  The \<open>ref\<close> callback of the remote \<open>video\<close> element in the template: it stores the
  element in the user and binds a play stream that already has tracks when the element
  has no source yet.
\<close>

definition setVideoRef :: "nat \<Rightarrow> nat \<Rightarrow> app_state \<Rightarrow> app_state" where
  "setVideoRef r v st =
     (case users st r of
        None \<Rightarrow> st
      | Some user \<Rightarrow>
          (let st1 = st\<lparr>users := (users st)(r := Some (user\<lparr>videoRef := Some v\<rparr>))\<rparr>
           in case playStream user of
                Some s \<Rightarrow>
                  (case (streams st1 s, videoEls st1 v) of
                     (Some ts, Some el) \<Rightarrow>
                       if length ts > 0 \<and> srcObject el = None
                       then upd_videoEl v (\<lambda>el. el\<lparr>srcObject := Some s, playsInline := True, muted := False\<rparr>) st1
                       else st1
                   | _ \<Rightarrow> st1)
              | None \<Rightarrow> st1))"

subsection \<open>\<open>pullRemoteUser\<close>\<close>

definition has_userId :: "app_state \<Rightarrow> jsval \<Rightarrow> nat \<Rightarrow> bool" where
  "has_userId st v r = (case users st r of Some u \<Rightarrow> JStr (userId u) = v | None \<Rightarrow> False)"

definition set_stage :: "nat \<Rightarrow> stage \<Rightarrow> app_state \<Rightarrow> app_state" where
  "set_stage c sg st =
     (if c < length (calls st)
      then st\<lparr>calls := (calls st)[c := (calls st ! c)\<lparr>c_stage := sg\<rparr>]\<rparr>
      else st)"

text \<open>
  The start of \<open>pullRemoteUser\<close> (lines 548-563), up to the first \<open>await\<close>: the user is
  looked up by \<open>===\<close> on the stored id, and \<open>createOfferAndEmit\<close> runs its checks. The
  new activation is appended to \<open>calls\<close>.
\<close>

definition pullRemoteUser :: "string \<Rightarrow> string \<Rightarrow> RecvTransceiverSpec list \<Rightarrow> app_state \<Rightarrow> app_state" where
  "pullRemoteUser targetRoomId targetUserId specs st =
     (let call = \<lparr>c_user = 0, c_wrap = 0, c_roomId = targetRoomId, c_targetUserId = targetUserId,
                  c_specs = specs, c_tracks = [], c_stage = Rejected (UserNotFound targetUserId)\<rparr>
      in case find (has_userId st (JStr targetUserId)) (remoteUsers st) of
           None \<Rightarrow> st\<lparr>calls := calls st @ [call]\<rparr>
         | Some r \<Rightarrow>
             (case users st r of
                None \<Rightarrow> st\<lparr>calls := calls st @ [call]\<rparr>
              | Some remoteUser \<Rightarrow>
                  (case receivePcWrap remoteUser of
                     None \<Rightarrow> st\<lparr>calls := calls st @ [call\<lparr>c_user := r\<rparr>]\<rparr>
                   | Some w \<Rightarrow>
                       (case pcwraps st w of
                          None \<Rightarrow> st\<lparr>calls := calls st @ [call\<lparr>c_user := r\<rparr>]\<rparr>
                        | Some pw \<Rightarrow>
                            (case createOffer_prepare (captureTracks st) pw of
                               (Some e, pw1) \<Rightarrow>
                                 st\<lparr>pcwraps := (pcwraps st)(w := Some pw1),
                                    calls := calls st @ [call\<lparr>c_user := r, c_wrap := w, c_stage := Rejected e\<rparr>]\<rparr>
                             | (None, pw1) \<Rightarrow>
                                 st\<lparr>pcwraps := (pcwraps st)(w := Some pw1),
                                    calls := calls st @ [call\<lparr>c_user := r, c_wrap := w, c_stage := AwaitOffer\<rparr>]\<rparr>)))))"

text \<open>
  \<open>createOfferAndEmit\<close> settles with the outcome \<open>offer\<close>; on success the \<open>pull\<close>
  request goes out (lines 565-574), which \<open>sendRequest\<close> refuses without an open peer.
\<close>

definition pull_offerResult :: "nat \<Rightarrow> error + string \<Rightarrow> app_state \<Rightarrow> app_state" where
  "pull_offerResult c offer st =
     (if c < length (calls st) \<and> c_stage (calls st ! c) = AwaitOffer then
        (let w = c_wrap (calls st ! c)
         in case pcwraps st w of
              None \<Rightarrow> set_stage c (Rejected TypeError) st
            | Some pw \<Rightarrow>
                (case createOffer_finish offer pw of
                   (Inl e, pw1) \<Rightarrow> set_stage c (Rejected e) (st\<lparr>pcwraps := (pcwraps st)(w := Some pw1)\<rparr>)
                 | (Inr sdp, pw1) \<Rightarrow>
                     (let st1 = st\<lparr>pcwraps := (pcwraps st)(w := Some pw1)\<rparr>
                      in case peer st1 of
                           None \<Rightarrow> set_stage c (Rejected NotConnected) st1
                         | Some closed \<Rightarrow>
                             if closed then set_stage c (Rejected PeerClosed) st1
                             else set_stage c AwaitPull st1)))
      else st)"

record sdp_response =
  r_code :: int
  r_message :: string
  r_sdp :: string

text \<open>
  The answer to the \<open>pull\<close> request (lines 575-608): a failed request or a code other
  than 0 rejects; otherwise the answer goes to the wrapper that the user object holds
  now, and the track listener is registered on it.
\<close>

definition pull_response :: "nat \<Rightarrow> error + sdp_response \<Rightarrow> app_state \<Rightarrow> app_state" where
  "pull_response c resp st =
     (if c < length (calls st) \<and> c_stage (calls st ! c) = AwaitPull then
        (case resp of
           Inl e \<Rightarrow> set_stage c (Rejected e) st
         | Inr response \<Rightarrow>
             if r_code response \<noteq> 0
             then set_stage c (Rejected (PullFailed (r_code response) (r_message response))) st
             else
               (case users st (c_user (calls st ! c)) of
                  None \<Rightarrow> set_stage c (Rejected TypeError) st
                | Some remoteUser \<Rightarrow>
                    (case receivePcWrap remoteUser of
                       None \<Rightarrow> set_stage c (Rejected TypeError) st
                     | Some w \<Rightarrow>
                         (case pcwraps st w of
                            None \<Rightarrow> set_stage c (Rejected TypeError) st
                          | Some pw \<Rightarrow>
                              (case setRemoteDescription (r_sdp response) pw of
                                 Inl e \<Rightarrow> set_stage c (Rejected e) st
                               | Inr pw1 \<Rightarrow>
                                   st\<lparr>pcwraps := (pcwraps st)(w := Some (on_track c pw1)),
                                      calls := (calls st)[c := (calls st ! c)
                                                 \<lparr>c_wrap := w, c_tracks := [], c_stage := AwaitTracks\<rparr>]\<rparr>)))))
      else st)"

text \<open>
  The listener of lines 598-607, run for activation \<open>c\<close> on a track event of wrapper
  \<open>w\<close>: the track is pushed; with at least \<open>specs.length\<close> tracks the listener removes
  itself and the promise resolves.
\<close>

definition track_listener :: "nat \<Rightarrow> track \<Rightarrow> nat \<Rightarrow> app_state \<Rightarrow> app_state" where
  "track_listener w t c st =
     (if c < length (calls st) then
        (let call = calls st ! c;
             tracks = c_tracks call @ [t]
         in if length tracks \<ge> length (c_specs call) then
              st\<lparr>calls := (calls st)[c := call\<lparr>c_tracks := tracks, c_stage := Resolved\<rparr>],
                 pcwraps := (case pcwraps st w of
                               Some pw \<Rightarrow> (pcwraps st)(w := Some (unsubscribe c pw))
                             | None \<Rightarrow> pcwraps st)\<rparr>
            else st\<lparr>calls := (calls st)[c := call\<lparr>c_tracks := tracks\<rparr>]\<rparr>)
      else st)"

text \<open>
  \<open>pc.ontrack\<close> (PCWrap.ts, lines 187-190) dispatches the event to the listeners that
  are registered when the dispatch starts, in registration order. A wrapper without a
  connection has nothing that could raise the event.
\<close>

definition dispatch_track :: "nat \<Rightarrow> track \<Rightarrow> app_state \<Rightarrow> app_state" where
  "dispatch_track w t st =
     (case pcwraps st w of
        None \<Rightarrow> st
      | Some pw \<Rightarrow>
          if pc pw = None then st
          else foldl (\<lambda>s c. track_listener w t c s) st (trackListeners pw))"

text \<open>\<open>MediaStream.addTrack\<close>: a track that is already in the stream is not added again.\<close>

definition addTrack :: "nat \<Rightarrow> track \<Rightarrow> app_state \<Rightarrow> app_state" where
  "addTrack s t st =
     (case streams st s of
        Some ts \<Rightarrow> if t \<in> set ts then st else st\<lparr>streams := (streams st)(s := Some (ts @ [t]))\<rparr>
      | None \<Rightarrow> st)"

text \<open>
  One round of the loop of lines 614-624 for the user object \<open>r\<close>: the mute flags are
  read from the object as it is now; a muted kind disables the track; then the track
  goes into the play stream, whose absence is a \<open>TypeError\<close>.
\<close>

definition append_track :: "nat \<Rightarrow> track \<Rightarrow> app_state \<Rightarrow> error option \<times> app_state" where
  "append_track r t st =
     (case users st r of
        None \<Rightarrow> (Some TypeError, st)
      | Some remoteUser \<Rightarrow>
          (let st1 = (if fst t = Video \<and> truthy (videoMuted remoteUser)
                      then st\<lparr>trackEnabled := (trackEnabled st)(t := False)\<rparr> else st);
               st2 = (if fst t = Audio \<and> truthy (audioMuted remoteUser)
                      then st1\<lparr>trackEnabled := (trackEnabled st1)(t := False)\<rparr> else st1)
           in case playStream remoteUser of
                None \<Rightarrow> (Some TypeError, st2)
              | Some s \<Rightarrow> (None, addTrack s t st2)))"

fun append_tracks :: "nat \<Rightarrow> track list \<Rightarrow> app_state \<Rightarrow> error option \<times> app_state" where
  "append_tracks r [] st = (None, st)"
| "append_tracks r (t # ts) st =
     (case append_track r t st of
        (Some e, st') \<Rightarrow> (Some e, st')
      | (None, st') \<Rightarrow> append_tracks r ts st')"

text \<open>
  The rest of \<open>pullRemoteUser\<close> after \<open>await trackPromise\<close> (lines 613-631): the
  collected tracks are appended and the play stream is bound to the video element.
\<close>

definition pull_resume :: "nat \<Rightarrow> app_state \<Rightarrow> app_state" where
  "pull_resume c st =
     (if c < length (calls st) \<and> c_stage (calls st ! c) = Resolved then
        (let r = c_user (calls st ! c)
         in case append_tracks r (c_tracks (calls st ! c)) st of
              (Some e, st1) \<Rightarrow> set_stage c (Rejected e) st1
            | (None, st1) \<Rightarrow>
                (let st2 = (case users st1 r of
                              Some remoteUser \<Rightarrow>
                                (case (videoRef remoteUser, playStream remoteUser) of
                                   (Some v, Some s) \<Rightarrow>
                                     upd_videoEl v (\<lambda>el. el\<lparr>srcObject := Some s, playsInline := True, muted := False\<rparr>) st1
                                 | _ \<Rightarrow> st1)
                            | None \<Rightarrow> st1)
                 in set_stage c Done st2))
      else st)"

subsection \<open>The notification handler\<close>

datatype notification =
    NewUser "UserPayload list"
  | UserDisconnect jsval
  | UserReconnect jsval
  | NewPusher UserPayload
  | TextMessage jsval jsval jsval
  | UserLeave jsval
  | OtherMethod string

fun findIndex :: "('a \<Rightarrow> bool) \<Rightarrow> 'a list \<Rightarrow> nat option" where
  "findIndex P [] = None"
| "findIndex P (x # xs) = (if P x then Some 0 else map_option Suc (findIndex P xs))"

definition set_user_state :: "jsval \<Rightarrow> conn_state \<Rightarrow> app_state \<Rightarrow> app_state" where
  "set_user_state v cs st =
     (case findIndex (has_userId st v) (remoteUsers st) of
        None \<Rightarrow> st
      | Some idx \<Rightarrow>
          (let r = remoteUsers st ! idx
           in case users st r of
                Some u \<Rightarrow> st\<lparr>users := (users st)(r := Some (u\<lparr>state := Some cs\<rparr>))\<rparr>
              | None \<Rightarrow> st))"

text \<open>
  The \<open>newUser\<close> branch (lines 254-269): each listed user is upserted and, with at
  least one pusher, pulled with the specs of all its pushers. An exception of the
  upsert leaves the handler.
\<close>

fun newUser_loop :: "(string \<Rightarrow> string) \<Rightarrow> UserPayload list \<Rightarrow> app_state \<Rightarrow> app_state" where
  "newUser_loop nfc [] st = st"
| "newUser_loop nfc (u # us) st =
     (case upsertRemoteUser nfc u st of
        (Inl e, st') \<Rightarrow> st'
      | (Inr r, st') \<Rightarrow>
          (case users st' r of
             None \<Rightarrow> newUser_loop nfc us st'
           | Some remoteUser \<Rightarrow>
               if length (pushers remoteUser) = 0 then newUser_loop nfc us st'
               else newUser_loop nfc us
                      (pullRemoteUser (roomId st') (userId remoteUser) (specs_of (pushers remoteUser)) st')))"

text \<open>
  The \<open>userLeave\<close> branch (lines 329-353): the first entry whose stored id is \<open>===\<close>
  the payload's is taken; its wrapper is closed and forgotten, its video element
  unbound, and the entry removed from the table.
\<close>

definition userLeave :: "jsval \<Rightarrow> app_state \<Rightarrow> app_state" where
  "userLeave leftUserId st =
     (case findIndex (has_userId st leftUserId) (remoteUsers st) of
        None \<Rightarrow> st
      | Some idx \<Rightarrow>
          (let r = remoteUsers st ! idx;
               st1 = (case users st r of
                        Some user \<Rightarrow>
                          (case receivePcWrap user of
                             Some w \<Rightarrow>
                               st\<lparr>pcwraps := (case pcwraps st w of
                                                Some pw \<Rightarrow> (pcwraps st)(w := Some (close pw))
                                              | None \<Rightarrow> pcwraps st),
                                  users := (users st)(r := Some (user\<lparr>receivePcWrap := None\<rparr>))\<rparr>
                           | None \<Rightarrow> st)
                      | None \<Rightarrow> st);
               st2 = (case users st1 r of
                        Some user \<Rightarrow>
                          (case videoRef user of
                             Some v \<Rightarrow>
                               (upd_videoEl v (\<lambda>el. el\<lparr>srcObject := None\<rparr>) st1)
                                 \<lparr>users := (users st1)(r := Some (user\<lparr>videoRef := None\<rparr>))\<rparr>
                           | None \<Rightarrow> st1)
                      | None \<Rightarrow> st1)
           in st2\<lparr>remoteUsers := take idx (remoteUsers st2) @ drop (Suc idx) (remoteUsers st2)\<rparr>))"

text \<open>
  \<open>onNotification\<close> (lines 252-355); \<open>now\<close> is \<open>Date.now()\<close>. A \<open>textMessage\<close> is
  \<open>TextMessage userId userName message\<close>, and is logged when the message is a string.
\<close>

definition onNotification :: "(string \<Rightarrow> string) \<Rightarrow> nat \<Rightarrow> notification \<Rightarrow> app_state \<Rightarrow> app_state" where
  "onNotification nfc now n st =
     (case n of
        NewUser us \<Rightarrow> newUser_loop nfc us st
      | UserDisconnect v \<Rightarrow> set_user_state v Disconnected st
      | UserReconnect v \<Rightarrow> set_user_state v Connected st
      | NewPusher data \<Rightarrow>
          (case upsertRemoteUser nfc data st of
             (Inl e, st') \<Rightarrow> st'
           | (Inr r, st') \<Rightarrow>
               (case users st' r of
                  None \<Rightarrow> st'
                | Some remoteUser \<Rightarrow>
                    if length (pushers remoteUser) > 0
                    then pullRemoteUser (roomId st') (userId remoteUser) (specs_of (pushers remoteUser)) st'
                    else st'))
      | TextMessage uid uname msg \<Rightarrow>
          (case msg of
             JStr m \<Rightarrow>
               st\<lparr>chatMessages := chatMessages st @
                    [\<lparr>m_userId = normalizeId nfc uid,
                      m_userName = (if uname = JNull \<or> uname = JUndefined then uid else uname),
                      m_message = m, m_self = False, m_time = now\<rparr>]\<rparr>
           | _ \<Rightarrow> st)
      | UserLeave v \<Rightarrow> userLeave v st
      | OtherMethod m \<Rightarrow> st)"

subsection \<open>\<open>onJoin\<close>\<close>

record join_response =
  j_code :: int
  j_users :: "UserPayload list option"

definition alert :: "string \<Rightarrow> app_state \<Rightarrow> app_state" where
  "alert msg st = st\<lparr>alerts := alerts st @ [msg]\<rparr>"

text \<open>
  \<open>onJoin\<close> (lines 439-485) in its three parts. First \<open>connect\<close> is called, which
  throws when the client already has a peer and creates one otherwise.
\<close>

definition onJoin :: "app_state \<Rightarrow> app_state" where
  "onJoin st =
     (case peer st of
        Some p \<Rightarrow> alert ''Failed to connect'' st
      | None \<Rightarrow> st\<lparr>peer := Some False\<rparr>)"

text \<open>
  Then \<open>connect\<close> settles. When it fails the handler alerts and returns. When the peer
  opens, \<open>onOpen\<close> sets the status to \<open>connected\<close> and the \<open>join\<close> request is sent,
  which \<open>sendRequest\<close> refuses without an open peer.
\<close>

definition onJoin_connected :: "error + unit \<Rightarrow> app_state \<Rightarrow> app_state" where
  "onJoin_connected res st =
     (case res of
        Inl e \<Rightarrow> alert ''Failed to connect'' st
      | Inr u \<Rightarrow>
          (let st1 = st\<lparr>wsStatus := WsConnected\<rparr>
           in case peer st1 of
                None \<Rightarrow> alert ''Join failed'' st1
              | Some closed \<Rightarrow> if closed then alert ''Join failed'' st1 else st1))"

fun upsert_all :: "(string \<Rightarrow> string) \<Rightarrow> UserPayload list \<Rightarrow> app_state \<Rightarrow> error option \<times> app_state" where
  "upsert_all nfc [] st = (None, st)"
| "upsert_all nfc (u # us) st =
     (case upsertRemoteUser nfc u st of
        (Inl e, st') \<Rightarrow> (Some e, st')
      | (Inr r, st') \<Rightarrow> upsert_all nfc us st')"

definition pull_all :: "app_state \<Rightarrow> app_state" where
  "pull_all st =
     foldl (\<lambda>s r. case users s r of
                     Some user \<Rightarrow>
                       if length (pushers user) > 0
                       then pullRemoteUser (roomId s) (userId user) (specs_of (pushers user)) s
                       else s
                   | None \<Rightarrow> s)
           st (remoteUsers st)"

text \<open>
  Last the \<open>join\<close> request settles (lines 459-484). A rejected request alerts. A
  response sets the status to \<open>joined\<close>; with code 0 and a user list the users are
  upserted; then every user of the table that has pushers is pulled.
\<close>

definition onJoin_response :: "(string \<Rightarrow> string) \<Rightarrow> error + join_response \<Rightarrow> app_state \<Rightarrow> app_state" where
  "onJoin_response nfc resp st =
     (case resp of
        Inl e \<Rightarrow> alert ''Join failed'' st
      | Inr response \<Rightarrow>
          (let st1 = st\<lparr>wsStatus := WsJoined\<rparr>
           in case (if j_code response = 0
                    then (case j_users response of Some us \<Rightarrow> upsert_all nfc us st1 | None \<Rightarrow> (None, st1))
                    else (None, st1)) of
                (Some e, st2) \<Rightarrow> alert ''Join failed'' st2
              | (None, st2) \<Rightarrow> pull_all st2))"

subsection \<open>\<open>onOpenDevices\<close>\<close>

text \<open>
  \<open>onOpenDevices\<close> (lines 487-546), run to its end with the outcomes of the platform
  and of the server: \<open>gum\<close> for \<open>getUserMedia\<close>, \<open>offer\<close> for the offer, \<open>resp\<close> for the
  \<open>push\<close> request. Between its \<open>await\<close>s only other handlers run, and none of them
  touches the wrapper of the local publication.
\<close>

definition onOpenDevices ::
  "(MediaStreamConstraints \<Rightarrow> error + nat) \<Rightarrow> error + string \<Rightarrow> error + sdp_response \<Rightarrow>
   app_state \<Rightarrow> app_state" where
  "onOpenDevices gum offer resp st =
     (if wsStatus st \<noteq> WsJoined then alert ''Please join a room first.'' st
      else
        (let st1 = (case sendPcWarp st of
                      Some w \<Rightarrow> st
                    | None \<Rightarrow> st\<lparr>sendPcWarp := Some (nextRef st),
                                 pcwraps := (pcwraps st)(nextRef st := Some (PCWrap_new (Some SendOnly))),
                                 nextRef := nextRef st + 1\<rparr>);
             constraints = \<lparr>audio = True, video = VideoIdeal 640 360\<rparr>
         in case sendPcWarp st1 of
              None \<Rightarrow> st1
            | Some w \<Rightarrow>
                (case pcwraps st1 w of
                   None \<Rightarrow> st1
                 | Some pw \<Rightarrow>
                     (case openDevices gum (Some constraints) pw (gumLog st1) of
                        (Inl e, pw1, log1) \<Rightarrow>
                          alert ''Set constraints failed''
                            (st1\<lparr>pcwraps := (pcwraps st1)(w := Some pw1), gumLog := log1\<rparr>)
                      | (Inr medias, pw1, log1) \<Rightarrow>
                          (let st2 = st1\<lparr>pcwraps := (pcwraps st1)(w := Some pw1), gumLog := log1,
                                        videoEl := (case videoEl st1 of
                                                      Some src \<Rightarrow> Some (Some medias)
                                                    | None \<Rightarrow> None)\<rparr>
                           in case createOfferAndEmit (captureTracks st2) offer pw1 of
                                (Inl e, pw2) \<Rightarrow>
                                  alert ''Create peer connection failed''
                                    (st2\<lparr>pcwraps := (pcwraps st2)(w := Some pw2)\<rparr>)
                              | (Inr offerSdp, pw2) \<Rightarrow>
                                  (let st3 = st2\<lparr>pcwraps := (pcwraps st2)(w := Some pw2)\<rparr>
                                   in if peer st3 \<noteq> Some False
                                      then alert ''Create peer connection failed'' st3
                                      else
                                        (case resp of
                                           Inl e \<Rightarrow> alert ''Create peer connection failed'' st3
                                         | Inr response \<Rightarrow>
                                             if r_code response \<noteq> 0 then alert ''Push failed'' st3
                                             else
                                               (case setRemoteDescription (r_sdp response) pw2 of
                                                  Inl e \<Rightarrow> alert ''Create peer connection failed'' st3
                                                | Inr pw3 \<Rightarrow>
                                                    st3\<lparr>pcwraps := (pcwraps st3)(w := Some pw3)\<rparr>))))))))"

subsection \<open>Events\<close>

text \<open>
  Everything that makes the client run: a notification, a click, the mounting of a
  remote video element, and the settling of an awaited operation. The clicks on the
  mute buttons and the \<open>ref\<close> callback come from the template, which offers them for
  the users of the table only; a video element that is mounted for the first time has
  no source.
\<close>

datatype event =
    Notification notification nat
  | ToggleAudio nat
  | ToggleVideo nat
  | VideoRef nat nat
  | JoinClick
  | JoinConnected "error + unit"
  | JoinResponse "error + join_response"
  | OpenDevicesClick "MediaStreamConstraints \<Rightarrow> error + nat" "error + string" "error + sdp_response"
  | OfferResult nat "error + string"
  | PullResponse nat "error + sdp_response"
  | TrackEvent nat track
  | Resume nat

definition step :: "(string \<Rightarrow> string) \<Rightarrow> event \<Rightarrow> app_state \<Rightarrow> app_state" where
  "step nfc ev st =
     (case ev of
        Notification n now \<Rightarrow> onNotification nfc now n st
      | ToggleAudio r \<Rightarrow> if r \<in> set (remoteUsers st) then toggleAudioMute r st else st
      | ToggleVideo r \<Rightarrow> if r \<in> set (remoteUsers st) then toggleVideoMute r st else st
      | VideoRef r v \<Rightarrow>
          if r \<in> set (remoteUsers st)
          then setVideoRef r v
                 (case videoEls st v of
                    Some el \<Rightarrow> st
                  | None \<Rightarrow> st\<lparr>videoEls := (videoEls st)(v := Some
                               \<lparr>srcObject = None, muted = False, opacity = ''1'', playsInline = True\<rparr>)\<rparr>)
          else st
      | JoinClick \<Rightarrow> onJoin st
      | JoinConnected res \<Rightarrow> onJoin_connected res st
      | JoinResponse resp \<Rightarrow> onJoin_response nfc resp st
      | OpenDevicesClick gum offer resp \<Rightarrow> onOpenDevices gum offer resp st
      | OfferResult c offer \<Rightarrow> pull_offerResult c offer st
      | PullResponse c resp \<Rightarrow> pull_response c resp st
      | TrackEvent w t \<Rightarrow> dispatch_track w t st
      | Resume c \<Rightarrow> pull_resume c st)"

fun run :: "(string \<Rightarrow> string) \<Rightarrow> event list \<Rightarrow> app_state \<Rightarrow> app_state" where
  "run nfc [] st = st"
| "run nfc (ev # evs) st = run nfc evs (step nfc ev st)"

section \<open>Example data\<close>

text \<open>
  The payload of the source's opening comment, cut down to its video pusher, its audio
  pusher, and the state of a client that has seen user 6725 publish the video.
\<close>

definition ex_video :: Pusher where
  "ex_video =
     \<lparr>rtpParam = \<lparr>av_type = Video, codec = ''H264'', payload_type = 109, ssrc = 4201321986\<rparr>,
      pusherId = ''p1''\<rparr>"

definition ex_audio :: Pusher where
  "ex_audio =
     \<lparr>rtpParam = \<lparr>av_type = Audio, codec = ''opus'', payload_type = 111, ssrc = 1821614664\<rparr>,
      pusherId = ''p2''\<rparr>"

definition ex_user :: UserPayload where
  "ex_user = \<lparr>p_userId = JStr ''6725'', p_userName = Some ''User_6725'', p_pushers = Some [ex_video]\<rparr>"

definition ex_state :: app_state where
  "ex_state = snd (upsertRemoteUser (\<lambda>s. s) ex_user (init_state ''hn64gxaw''))"

definition ex_wrap :: PCWrap where
  "ex_wrap =
     \<lparr>pc = Some \<lparr>transceivers =
                    [\<lparr>t_kind = Video, t_direction = RecvOnly, t_mid = None, t_sender_track = None\<rparr>],
                  localDescription = None, remoteDescription = None\<rparr>,
      localStream = None, direction = RecvOnly, recvMap = [(''p1'', [])],
      mediaConstraints = None, trackListeners = []\<rparr>"

definition ex_remote :: RemoteUser where
  "ex_remote =
     \<lparr>userId = ''6725'', userName = Some ''User_6725'', pushers = [ex_video],
      videoRef = None, receivePcWrap = Some 1, playStream = Some 2,
      videoMuted = Some False, audioMuted = Some False, state = None\<rparr>"

text \<open>A joined client, the server's answer to a push, and the client after it opened its devices.\<close>

definition ex_joined :: app_state where
  "ex_joined = (init_state ''hn64gxaw'')\<lparr>wsStatus := WsJoined, peer := Some False\<rparr>"

definition ex_answer :: sdp_response where
  "ex_answer = \<lparr>r_code = 0, r_message = ''ok'', r_sdp = ''v=0 answer''\<rparr>"

definition ex_opened :: app_state where
  "ex_opened = onOpenDevices (\<lambda>c. Inr 7) (Inr ''v=0 offer'') (Inr \<lparr>r_code = 0, r_message = ''ok'', r_sdp = ''v=0 answer''\<rparr>) ex_joined"

definition ex_send_wrap :: PCWrap where
  "ex_send_wrap =
     \<lparr>pc = Some \<lparr>transceivers = [], localDescription = Some ''v=0 offer'',
                  remoteDescription = Some ''v=0 answer''\<rparr>,
      localStream = Some 7, direction = SendOnly, recvMap = [],
      mediaConstraints = None, trackListeners = []\<rparr>"

section \<open>Invariants\<close>

text \<open>
  The table is well formed when each of its entries is an allocated user object. The key
  of an entry is its stored id, normalised the way \<open>upsertRemoteUser\<close> compares it.
\<close>

definition table_wf :: "app_state \<Rightarrow> bool" where
  "table_wf st \<longleftrightarrow> (\<forall>r \<in> set (remoteUsers st). r < nextRef st \<and> users st r \<noteq> None)"

definition key_of :: "(string \<Rightarrow> string) \<Rightarrow> app_state \<Rightarrow> nat \<Rightarrow> string option" where
  "key_of nfc st r =
     (case users st r of
        Some u \<Rightarrow> Some (normalizeId nfc (JStr (userId u)))
      | None \<Rightarrow> None)"

definition table_keys :: "(string \<Rightarrow> string) \<Rightarrow> app_state \<Rightarrow> string option list" where
  "table_keys nfc st = map (key_of nfc st) (remoteUsers st)"

definition unique_ids :: "(string \<Rightarrow> string) \<Rightarrow> app_state \<Rightarrow> bool" where
  "unique_ids nfc st \<longleftrightarrow> distinct (table_keys nfc st)"

text \<open>
  Two user objects have the same core when they agree on the id, the pushers, the
  wrapper and the play stream. A step is quiet when it leaves the table as it is, keeps
  the core of every user object, allocates no user object and no stream, and at most
  appends to the streams.
\<close>

definition same_core :: "RemoteUser \<Rightarrow> RemoteUser \<Rightarrow> bool" where
  "same_core u u' \<longleftrightarrow>
     userId u' = userId u \<and> pushers u' = pushers u \<and>
     receivePcWrap u' = receivePcWrap u \<and> playStream u' = playStream u"

definition extends :: "'a list \<Rightarrow> 'a list \<Rightarrow> bool" where
  "extends xs ys \<longleftrightarrow> (\<exists>zs. ys = xs @ zs)"

definition quiet :: "app_state \<Rightarrow> app_state \<Rightarrow> bool" where
  "quiet st st' \<longleftrightarrow>
     remoteUsers st' = remoteUsers st \<and> nextRef st \<le> nextRef st' \<and>
     (\<forall>r. rel_option same_core (users st r) (users st' r)) \<and>
     (\<forall>s. rel_option extends (streams st s) (streams st' s))"

text \<open>The next track event completes the wait of call \<open>c\<close>.\<close>

definition completes :: "app_state \<Rightarrow> nat \<Rightarrow> bool" where
  "completes st c \<longleftrightarrow>
     c < length (calls st) \<and>
     length (c_specs (calls st ! c)) \<le> Suc (length (c_tracks (calls st ! c)))"

text \<open>
  A client that joined a room with user 6725 in it, was told of the user's video
  publication, and has sent its offer and received the answer: the subscribe call waits
  for its track.
\<close>

definition ex_waiting :: app_state where
  "ex_waiting =
     run (\<lambda>s. s)
       [JoinClick, JoinConnected (Inr ()),
        JoinResponse (Inr \<lparr>j_code = 0, j_users = Some [\<lparr>p_userId = JStr ''6725'', p_userName = Some ''User_6725'', p_pushers = Some []\<rparr>]\<rparr>),
        Notification (NewPusher ex_user) 0,
        OfferResult 0 (Inr ''v=0 offer''),
        PullResponse 0 (Inr ex_answer)]
       (init_state ''hn64gxaw'')"

definition ex_remote_late :: RemoteUser where
  "ex_remote_late =
     \<lparr>userId = ''6725'', userName = Some ''User_6725'', pushers = [ex_video],
      videoRef = None, receivePcWrap = Some 1, playStream = Some 2,
      videoMuted = None, audioMuted = None, state = None\<rparr>"

definition ex_wait_wrap :: PCWrap where
  "ex_wait_wrap =
     \<lparr>pc = Some \<lparr>transceivers =
                    [\<lparr>t_kind = Video, t_direction = RecvOnly, t_mid = None, t_sender_track = None\<rparr>],
                  localDescription = Some ''v=0 offer'', remoteDescription = Some ''v=0 answer''\<rparr>,
      localStream = None, direction = RecvOnly, recvMap = [(''p1'', [])],
      mediaConstraints = None, trackListeners = [0]\<rparr>"

definition ex_call :: pull_call where
  "ex_call =
     \<lparr>c_user = 0, c_wrap = 1, c_roomId = ''hn64gxaw'', c_targetUserId = ''6725'',
      c_specs = [\<lparr>spec_type = Video, pusher_id = ''p1''\<rparr>], c_tracks = [], c_stage = AwaitTracks\<rparr>"

text \<open>One collected track for each spec of the call, kind by kind.\<close>

definition one_track_per_slot :: "pull_call \<Rightarrow> bool" where
  "one_track_per_slot call \<longleftrightarrow>
     (\<forall>k. length (filter (\<lambda>t. fst t = k) (c_tracks call)) =
          length (filter (\<lambda>sp. spec_type sp = k) (c_specs call)))"

text \<open>The same client after the user published audio as well: a second call waits beside the first.\<close>

definition ex_two_calls :: app_state where
  "ex_two_calls =
     run (\<lambda>s. s)
       [Notification (NewPusher \<lparr>p_userId = JStr ''6725'', p_userName = None,
                                 p_pushers = Some [ex_video, ex_audio]\<rparr>) 0,
        OfferResult 1 (Inr ''v=0 offer 2''),
        PullResponse 1 (Inr ex_answer)]
       ex_waiting"

text \<open>The mute flag of a user for a kind of track, as the append loop reads it.\<close>

definition muted_flag :: "RemoteUser \<Rightarrow> media_kind \<Rightarrow> bool" where
  "muted_flag u k = (case k of Video \<Rightarrow> truthy (videoMuted u) | Audio \<Rightarrow> truthy (audioMuted u))"

text \<open>A subscribe call that ended with an exception.\<close>

definition is_rejected :: "stage \<Rightarrow> bool" where
  "is_rejected sg = (case sg of Rejected e \<Rightarrow> True | _ \<Rightarrow> False)"

text \<open>The stored ids of the table, entry by entry.\<close>

definition stored_ids :: "app_state \<Rightarrow> string option list" where
  "stored_ids st = map (\<lambda>r. map_option userId (users st r)) (remoteUsers st)"

text \<open>The waiting client of above after user 6725 left the room.\<close>

definition ex_left :: app_state where
  "ex_left = step (\<lambda>s. s) (Notification (UserLeave (JStr ''6725'')) 0) ex_waiting"

text \<open>
  The pushers of a payload that \<open>upsertRemoteUser\<close> appends to an existing user: those
  whose id is not among the stored ones.
\<close>

definition added_pushers :: "RemoteUser \<Rightarrow> UserPayload \<Rightarrow> Pusher list" where
  "added_pushers u user =
     filter (\<lambda>p. pusherId p \<notin> set (map pusherId (pushers u)))
       (case p_pushers user of Some ps \<Rightarrow> ps | None \<Rightarrow> [])"


text \<open>
  The slots of a user: a user without pushers has no wrapper; a user with pushers has a
  receive-only wrapper with an open connection that holds one transceiver for each entry
  of \<open>recvMap\<close>, and every pusher of the user has its entry there.
\<close>

definition slots_ok :: "app_state \<Rightarrow> RemoteUser \<Rightarrow> bool" where
  "slots_ok st u =
     (case receivePcWrap u of
        None \<Rightarrow> pushers u = []
      | Some w \<Rightarrow>
          pushers u \<noteq> [] \<and> w < nextRef st \<and>
          (case pcwraps st w of
             None \<Rightarrow> False
           | Some pw \<Rightarrow>
               direction pw = RecvOnly \<and>
               (case pc pw of
                  None \<Rightarrow> False
                | Some p \<Rightarrow> length (transceivers p) = length (recvMap pw)) \<and>
               set (map pusherId (pushers u)) \<subseteq> set (map fst (recvMap pw))))"

text \<open>The play stream of a user: it is there exactly when the wrapper is, and it is allocated.\<close>

definition stream_ok :: "app_state \<Rightarrow> RemoteUser \<Rightarrow> bool" where
  "stream_ok st u =
     (case playStream u of
        None \<Rightarrow> receivePcWrap u = None
      | Some s \<Rightarrow> receivePcWrap u \<noteq> None \<and> s < nextRef st \<and> streams st s \<noteq> None)"

text \<open>Every entry of the table is a user object with a normalised id, its slots and its stream.\<close>

definition users_ok :: "(string \<Rightarrow> string) \<Rightarrow> app_state \<Rightarrow> bool" where
  "users_ok nfc st =
     (\<forall>r \<in> set (remoteUsers st).
        case users st r of
          None \<Rightarrow> False
        | Some u \<Rightarrow> normalizeId nfc (JStr (userId u)) = userId u \<and> slots_ok st u \<and> stream_ok st u)"

text \<open>Two entries of the table never share a wrapper.\<close>

definition wrappers_apart :: "app_state \<Rightarrow> bool" where
  "wrappers_apart st =
     (\<forall>r \<in> set (remoteUsers st). \<forall>r' \<in> set (remoteUsers st).
        r \<noteq> r' \<longrightarrow>
        (case (users st r, users st r') of
           (Some u, Some u') \<Rightarrow> receivePcWrap u = None \<or> receivePcWrap u \<noteq> receivePcWrap u'
         | _ \<Rightarrow> True))"

text \<open>The wrapper of the local publication is allocated and is not receive-only.\<close>

definition send_ok :: "app_state \<Rightarrow> bool" where
  "send_ok st =
     (case sendPcWarp st of
        None \<Rightarrow> True
      | Some w \<Rightarrow>
          w < nextRef st \<and>
          (case pcwraps st w of None \<Rightarrow> False | Some pw \<Rightarrow> direction pw = SendOnly))"

text \<open>
  A subscribe call stands at its offer from the moment \<open>createOfferAndEmit\<close> has passed
  its checks until the answer to the \<open>pull\<close> request is there.
\<close>

definition offering :: "stage \<Rightarrow> bool" where
  "offering sg = (sg = AwaitOffer \<or> sg = AwaitPull)"

text \<open>
  The slots of a call are reserved when its wrapper is receive-only, has an entry in
  \<open>recvMap\<close> for the pusher of every spec of the call and, unless it was closed in the
  meantime, a connection with one transceiver for each entry, at least one.
\<close>

definition reserved :: "app_state \<Rightarrow> pull_call \<Rightarrow> bool" where
  "reserved st call =
     (c_wrap call < nextRef st \<and> c_specs call \<noteq> [] \<and>
      (case pcwraps st (c_wrap call) of
         None \<Rightarrow> False
       | Some pw \<Rightarrow>
           direction pw = RecvOnly \<and>
           set (map pusher_id (c_specs call)) \<subseteq> set (map fst (recvMap pw)) \<and>
           (case pc pw of
              None \<Rightarrow> True
            | Some p \<Rightarrow> transceivers p \<noteq> [] \<and> length (transceivers p) = length (recvMap pw))))"

definition calls_ok :: "app_state \<Rightarrow> bool" where
  "calls_ok st = (\<forall>call \<in> set (calls st). offering (c_stage call) \<longrightarrow> reserved st call)"

text \<open>The invariant of the client.\<close>

definition inv :: "(string \<Rightarrow> string) \<Rightarrow> app_state \<Rightarrow> bool" where
  "inv nfc st \<longleftrightarrow>
     table_wf st \<and> distinct (remoteUsers st) \<and> unique_ids nfc st \<and> users_ok nfc st \<and>
     wrappers_apart st \<and> send_ok st \<and> calls_ok st"

text \<open>
  What a step that is no upsert, no leave and no opening of the devices keeps of the
  wrappers and the calls: the wrapper of the local publication, of every wrapper the
  direction, the slots and the transceivers, and of every call at its offer the wrapper
  and the specs; no call comes to stand at its offer.
\<close>

definition wrap_same :: "PCWrap \<Rightarrow> PCWrap \<Rightarrow> bool" where
  "wrap_same pw pw' \<longleftrightarrow>
     direction pw' = direction pw \<and> recvMap pw' = recvMap pw \<and>
     map_option transceivers (pc pw') = map_option transceivers (pc pw)"

definition call_same :: "pull_call \<Rightarrow> pull_call \<Rightarrow> bool" where
  "call_same c c' \<longleftrightarrow>
     (offering (c_stage c') \<longrightarrow> offering (c_stage c) \<and> c_wrap c' = c_wrap c \<and> c_specs c' = c_specs c)"

definition kept :: "app_state \<Rightarrow> app_state \<Rightarrow> bool" where
  "kept st st' \<longleftrightarrow>
     sendPcWarp st' = sendPcWarp st \<and>
     (\<forall>w. rel_option wrap_same (pcwraps st w) (pcwraps st' w)) \<and>
     list_all2 call_same (calls st) (calls st')"

text \<open>
  A wrapper has grown when it has an open connection as before, has kept its direction,
  its slots and its transceivers, and has got one new transceiver for each new slot.
\<close>

definition grown :: "PCWrap \<Rightarrow> PCWrap \<Rightarrow> bool" where
  "grown pw pw' \<longleftrightarrow>
     direction pw' = direction pw \<and> extends (recvMap pw) (recvMap pw') \<and>
     (case pc pw of
        None \<Rightarrow> False
      | Some p \<Rightarrow>
          (case pc pw' of
             None \<Rightarrow> False
           | Some p' \<Rightarrow>
               extends (transceivers p) (transceivers p') \<and>
               length (transceivers p') + length (recvMap pw) =
                 length (transceivers p) + length (recvMap pw')))"

section \<open>Properties\<close>

subsection \<open>Identifiers\<close>

lemma trim_trim: "trim (trim s) = trim s"
proof -
  define a where "a = dropWhile is_ws s"
  define b where "b = dropWhile is_ws (rev a)"
  have b1: "dropWhile is_ws b = b"
    unfolding b_def by simp
  have b2: "dropWhile is_ws (rev b) = rev b"
  proof (cases "b = []")
    case True
    then show ?thesis by simp
  next
    case False
    have "rev a = takeWhile is_ws (rev a) @ b"
      unfolding b_def by simp
    then have "last (rev a) = last b"
      using False by (metis last_appendR)
    moreover have an: "a \<noteq> []"
      using False b_def by auto
    ultimately have "hd a = last b"
      by (simp add: last_rev)
    moreover have "\<not> is_ws (hd a)"
      using an unfolding a_def by (metis hd_dropWhile)
    ultimately have "\<not> is_ws (hd (rev b))"
      using False by (simp add: hd_rev)
    then show ?thesis
      using False by (cases "rev b") auto
  qed
  have "trim (trim s) = rev (dropWhile is_ws (rev (dropWhile is_ws (rev b))))"
    by (simp add: trim_def a_def b_def)
  also have "\<dots> = rev b"
    by (simp add: b1 b2)
  also have "\<dots> = trim s"
    by (simp add: trim_def a_def b_def)
  finally show ?thesis .
qed

lemma nfc_stable_id: "nfc_stable (\<lambda>s. s)"
  by (simp add: nfc_stable_def trim_trim)

lemma normalizeId_idem:
  assumes "nfc_stable nfc"
  shows "normalizeId nfc (JStr (normalizeId nfc v)) = normalizeId nfc v"
proof -
  have a: "nfc (nfc s) = nfc s" and b: "trim (nfc (trim s)) = nfc (trim s)" for s
    using assms unfolding nfc_stable_def by blast+
  have "nfc (trim (nfc (trim (String v)))) = nfc (nfc (trim (String v)))"
    by (simp only: b)
  also have "\<dots> = nfc (trim (String v))"
    by (rule a)
  finally show ?thesis
    by (simp only: normalizeId_def String.simps)
qed

lemma String_6725: "String (JNum 6725) = ''6725''"
  by (simp add: string_of_nat.simps[of 6725] string_of_nat.simps[of 672]
      string_of_nat.simps[of 67] string_of_nat.simps[of 6] digit_char_def)

lemma trim_6725: "trim '' 6725  '' = ''6725''"
  by (simp add: trim_def is_ws_def)

subsection \<open>The example state\<close>

lemmas pcw_defs =
  addTransceivers_def initPeerConnection_def PCWrap_new_def RTCPeerConnection_new_def
  pc_addTransceiver_def specs_of_def createOffer_prepare_def createOffer_finish_def
  createOfferAndEmit_def

lemma ex_state_eq:
  "ex_state = (init_state ''hn64gxaw'')
      \<lparr>remoteUsers := [0], users := (\<lambda>_. None)(0 := Some ex_remote),
       pcwraps := (\<lambda>_. None)(1 := Some ex_wrap), streams := (\<lambda>_. None)(2 := Some []),
       nextRef := 3\<rparr>"
  by (simp add: ex_state_def upsertRemoteUser_def init_state_def createRemoteUser_def ex_user_def
      ex_video_def pcw_defs normalizeId_def trim_def is_ws_def Let_def ex_remote_def ex_wrap_def
      numeral_2_eq_2)

subsection \<open>Offers of a receive-only wrapper\<close>





subsection \<open>Opening the devices twice\<close>

lemma openDevices_open:
  "localStream w = Some s \<Longrightarrow> openDevices gum constraints w log = (Inr s, w, log)"
  by (simp add: openDevices_def)

lemma openDevices_success:
  "openDevices gum constraints w log = (Inr s, w1, log1) \<Longrightarrow> localStream w1 = Some s"
  by (auto simp: openDevices_def Let_def split: option.splits if_splits sum.splits)

lemma Device_openDevices_success:
  "Device_openDevices gum constraints d log = (Inr s, d1, log1) \<Longrightarrow> stream d1 = Some s"
  by (auto simp: Device_openDevices_def Let_def split: option.splits if_splits sum.splits)

lemma createOfferAndEmit_localStream:
  "createOfferAndEmit gt offer w = (res, w') \<Longrightarrow> localStream w' = localStream w"
  by (auto simp: createOfferAndEmit_def createOffer_prepare_def createOffer_finish_def
      initPeerConnection_def attachLocalTracks_def Let_def
      split: option.splits sum.splits if_splits prod.splits)

lemma setRemoteDescription_localStream:
  "setRemoteDescription a w = Inr w' \<Longrightarrow> localStream w' = localStream w"
  by (auto simp: setRemoteDescription_def split: option.splits)

lemma onOpenDevices_open:
  assumes "sendPcWarp st = Some w" "pcwraps st w = Some pw" "localStream pw = Some s"
  shows "sendPcWarp (onOpenDevices gum offer resp st) = Some w \<and>
         (\<exists>pw'. pcwraps (onOpenDevices gum offer resp st) w = Some pw' \<and> localStream pw' = Some s) \<and>
         gumLog (onOpenDevices gum offer resp st) = gumLog st \<and>
         nextRef (onOpenDevices gum offer resp st) = nextRef st \<and>
         (wsStatus st = WsJoined \<and> videoEl st \<noteq> None \<longrightarrow>
            videoEl (onOpenDevices gum offer resp st) = Some (Some s))"
proof (cases "wsStatus st = WsJoined")
  case False
  then show ?thesis using assms by (simp add: onOpenDevices_def alert_def)
next
  case True
  obtain res pw2 where co: "createOfferAndEmit (captureTracks st) offer pw = (res, pw2)"
    by (cases "createOfferAndEmit (captureTracks st) offer pw") auto
  have l2: "localStream pw2 = Some s"
    using createOfferAndEmit_localStream[OF co] assms by simp
  show ?thesis
    using True assms co l2
    by (auto simp: onOpenDevices_def alert_def openDevices_open Let_def
        dest: setRemoteDescription_localStream split: sum.splits option.splits)
qed

lemma ex_opened_eq:
  "ex_opened = ex_joined\<lparr>sendPcWarp := Some 0, videoEl := Some (Some 7),
      pcwraps := (\<lambda>_. None)(0 := Some ex_send_wrap), nextRef := 1,
      gumLog := [\<lparr>audio = True, video = VideoIdeal 640 360\<rparr>]\<rparr>"
  by (simp add: ex_opened_def onOpenDevices_def ex_joined_def init_state_def openDevices_def PCWrap_new_def
     createOfferAndEmit_def createOffer_prepare_def createOffer_finish_def initPeerConnection_def
     RTCPeerConnection_new_def attachLocalTracks_def setRemoteDescription_def ex_send_wrap_def Let_def)

text \<open>
  Claim C8. Once \<open>openDevices\<close> has handed out a capture stream, a second call on the
  resulting wrapper returns the same stream object and leaves the wrapper and the log of
  \<open>getUserMedia\<close> invocations as they were, whatever the platform would answer now; the
  same holds for \<open>Device.openDevices\<close>. In a state whose send wrapper holds a capture
  stream, \<open>onOpenDevices\<close> keeps that wrapper object and its stream, invokes
  \<open>getUserMedia\<close> no further, allocates no object, and (when joined, with the preview
  mounted) shows the same stream in the preview.
\<close>

theorem open_local_publish_idempotent:
  "(openDevices g1 c1 w l = (Inr s, w1, l1) \<longrightarrow> openDevices g2 c2 w1 l1 = (Inr s, w1, l1)) \<and>
   (Device_openDevices g1 c1 d l = (Inr s, d1, l1) \<longrightarrow>
      Device_openDevices g2 c2 d1 l1 = (Inr s, d1, l1)) \<and>
   (sendPcWarp st = Some sw \<and> pcwraps st sw = Some pw \<and> localStream pw = Some s \<longrightarrow>
      sendPcWarp (onOpenDevices g2 offer resp st) = Some sw \<and>
      (\<exists>pw'. pcwraps (onOpenDevices g2 offer resp st) sw = Some pw' \<and> localStream pw' = Some s) \<and>
      gumLog (onOpenDevices g2 offer resp st) = gumLog st \<and>
      nextRef (onOpenDevices g2 offer resp st) = nextRef st \<and>
      (wsStatus st = WsJoined \<and> videoEl st \<noteq> None \<longrightarrow>
         videoEl (onOpenDevices g2 offer resp st) = Some (Some s)))"
proof (intro conjI impI)
  assume "openDevices g1 c1 w l = (Inr s, w1, l1)"
  then have "localStream w1 = Some s" by (rule openDevices_success)
  then show "openDevices g2 c2 w1 l1 = (Inr s, w1, l1)"
    by (rule openDevices_open)
next
  assume "Device_openDevices g1 c1 d l = (Inr s, d1, l1)"
  then have "stream d1 = Some s" by (rule Device_openDevices_success)
  then show "Device_openDevices g2 c2 d1 l1 = (Inr s, d1, l1)"
    by (simp add: Device_openDevices_def)
next
  assume a: "sendPcWarp st = Some sw \<and> pcwraps st sw = Some pw \<and> localStream pw = Some s"
  note r = onOpenDevices_open[of st sw pw s g2 offer resp]
  from a r show "sendPcWarp (onOpenDevices g2 offer resp st) = Some sw" by blast
  from a r show "\<exists>pw'. pcwraps (onOpenDevices g2 offer resp st) sw = Some pw' \<and> localStream pw' = Some s" by blast
  from a r show "gumLog (onOpenDevices g2 offer resp st) = gumLog st" by blast
  from a r show "nextRef (onOpenDevices g2 offer resp st) = nextRef st" by blast
  assume "wsStatus st = WsJoined \<and> videoEl st \<noteq> None"
  with a r show "videoEl (onOpenDevices g2 offer resp st) = Some (Some s)" by blast
qed

theorem open_local_publish_idempotent_witness:
  "openDevices (\<lambda>c. Inr 7) None (PCWrap_new (Some SendOnly)) [] =
     (Inr 7, (PCWrap_new (Some SendOnly))\<lparr>localStream := Some 7\<rparr>, [default_constraints]) \<and>
   openDevices (\<lambda>c. Inr 8) None ((PCWrap_new (Some SendOnly))\<lparr>localStream := Some 7\<rparr>)
       [default_constraints] =
     (Inr 7, (PCWrap_new (Some SendOnly))\<lparr>localStream := Some 7\<rparr>, [default_constraints]) \<and>
   Device_openDevices (\<lambda>c. Inr 7) None \<lparr>stream = None, defaultConstraints = None\<rparr> [] =
     (Inr 7, \<lparr>stream = Some 7, defaultConstraints = None\<rparr>, [default_constraints]) \<and>
   Device_openDevices (\<lambda>c. Inr 8) None \<lparr>stream = Some 7, defaultConstraints = None\<rparr>
       [default_constraints] =
     (Inr 7, \<lparr>stream = Some 7, defaultConstraints = None\<rparr>, [default_constraints]) \<and>
   sendPcWarp ex_opened = Some 0 \<and>
   (\<exists>pw. pcwraps ex_opened 0 = Some pw \<and> localStream pw = Some 7) \<and>
   wsStatus ex_opened = WsJoined \<and> videoEl ex_opened \<noteq> None \<and>
   sendPcWarp (onOpenDevices (\<lambda>c. Inr 8) (Inr ''v=0 offer'') (Inr ex_answer) ex_opened) = Some 0 \<and>
   (\<exists>pw'. pcwraps (onOpenDevices (\<lambda>c. Inr 8) (Inr ''v=0 offer'') (Inr ex_answer) ex_opened) 0 = Some pw' \<and>
      localStream pw' = Some 7) \<and>
   gumLog (onOpenDevices (\<lambda>c. Inr 8) (Inr ''v=0 offer'') (Inr ex_answer) ex_opened) = gumLog ex_opened \<and>
   videoEl (onOpenDevices (\<lambda>c. Inr 8) (Inr ''v=0 offer'') (Inr ex_answer) ex_opened) = Some (Some 7)"
  using open_local_publish_idempotent[of "\<lambda>c. Inr 7" None "PCWrap_new (Some SendOnly)" "[]" 7
      "(PCWrap_new (Some SendOnly))\<lparr>localStream := Some 7\<rparr>" "[default_constraints]"
      "\<lambda>c. Inr 8" None "\<lparr>stream = None, defaultConstraints = None\<rparr>"
      "\<lparr>stream = Some 7, defaultConstraints = None\<rparr>" ex_opened 0 ex_send_wrap
      "Inr ''v=0 offer''" "Inr ex_answer"]
  by (simp add: openDevices_def Device_openDevices_def PCWrap_new_def ex_opened_eq ex_send_wrap_def
      ex_joined_def init_state_def)

subsection \<open>Lookup by the raw id\<close>

lemma findIndex_None: "findIndex P xs = None \<longleftrightarrow> (\<forall>x \<in> set xs. \<not> P x)"
  by (induction xs) auto

lemma findIndex_Some:
  "findIndex P xs = Some i \<Longrightarrow> i < length xs \<and> P (xs ! i) \<and> (\<forall>j < i. \<not> P (xs ! j))"
proof (induction xs arbitrary: i)
  case Nil
  then show ?case by simp
next
  case (Cons x xs)
  show ?case
  proof (cases "P x")
    case True
    with Cons.prems show ?thesis by simp
  next
    case False
    with Cons.prems obtain k where k: "findIndex P xs = Some k" "i = Suc k"
      by (auto split: if_splits)
    from Cons.IH[OF k(1)] False k(2) show ?thesis
      by (auto simp: less_Suc_eq_0_disj)
  qed
qed

lemma trim_plain_6725: "trim ''6725'' = ''6725''"
  by (simp add: trim_def is_ws_def)

lemma normalizeId_num: "normalizeId (\<lambda>s. s) (JNum 6725) = ''6725''"
  by (simp only: normalizeId_def String_6725 trim_plain_6725)

lemma normalizeId_padded: "normalizeId (\<lambda>s. s) (JStr '' 6725  '') = ''6725''"
  by (simp only: normalizeId_def String.simps trim_6725)

text \<open>
  Claim C10. \<open>userDisconnect\<close>, \<open>userReconnect\<close> and \<open>userLeave\<close> look the user up
  with \<open>===\<close> between the stored id and the payload's \<open>userId\<close> as it came. When no
  stored id is strictly equal to the payload value, each of the three handlers returns
  the state it was given, unchanged in every component. The witness has the stored id
  \<open>''6725''\<close> and the payload values \<open>6725\<close> (a number) and \<open>'' 6725  ''\<close>, both of which
  normalise to the stored id.
\<close>

theorem strict_id_lookup_unchanged:
  assumes "\<forall>r \<in> set (remoteUsers st). \<not> has_userId st v r"
  shows "onNotification nfc now (UserDisconnect v) st = st \<and>
         onNotification nfc now (UserReconnect v) st = st \<and>
         onNotification nfc now (UserLeave v) st = st"
proof -
  have "findIndex (has_userId st v) (remoteUsers st) = None"
    using assms by (simp add: findIndex_None)
  then show ?thesis
    by (simp add: onNotification_def set_user_state_def userLeave_def)
qed

theorem strict_id_lookup_unchanged_witness:
  "remoteUsers ex_state = [0] \<and> users ex_state 0 = Some ex_remote \<and> userId ex_remote = ''6725'' \<and>
   normalizeId (\<lambda>s. s) (JNum 6725) = ''6725'' \<and>
   normalizeId (\<lambda>s. s) (JStr '' 6725  '') = ''6725'' \<and>
   onNotification (\<lambda>s. s) 0 (UserDisconnect (JNum 6725)) ex_state = ex_state \<and>
   onNotification (\<lambda>s. s) 0 (UserReconnect (JNum 6725)) ex_state = ex_state \<and>
   onNotification (\<lambda>s. s) 0 (UserLeave (JNum 6725)) ex_state = ex_state \<and>
   onNotification (\<lambda>s. s) 0 (UserDisconnect (JStr '' 6725  '')) ex_state = ex_state \<and>
   onNotification (\<lambda>s. s) 0 (UserReconnect (JStr '' 6725  '')) ex_state = ex_state \<and>
   onNotification (\<lambda>s. s) 0 (UserLeave (JStr '' 6725  '')) ex_state = ex_state \<and>
   remoteUsers (onNotification (\<lambda>s. s) 0 (UserLeave (JStr ''6725'')) ex_state) = []"
  using strict_id_lookup_unchanged[of ex_state "JNum 6725" "\<lambda>s. s" 0]
    strict_id_lookup_unchanged[of ex_state "JStr '' 6725  ''" "\<lambda>s. s" 0]
  by (simp add: ex_state_eq init_state_def has_userId_def ex_remote_def normalizeId_num
      normalizeId_padded onNotification_def userLeave_def set_user_state_def close_def)

subsection \<open>Upserts and the table\<close>

lemma find_Some_D: "find P xs = Some x \<Longrightarrow> x \<in> set xs \<and> P x"
  by (induction xs) (auto split: if_splits)

lemma find_None_D: "find P xs = None \<Longrightarrow> \<forall>x \<in> set xs. \<not> P x"
  by (induction xs) (auto split: if_splits)

lemma upsert_existing:
  assumes "find (same_id nfc st (p_userId user)) (remoteUsers st) = Some r"
  shows "remoteUsers (snd (upsertRemoteUser nfc user st)) = remoteUsers st \<and>
         nextRef st \<le> nextRef (snd (upsertRemoteUser nfc user st)) \<and>
         (\<forall>q. q \<noteq> r \<longrightarrow> users (snd (upsertRemoteUser nfc user st)) q = users st q) \<and>
         (\<exists>u u'. users st r = Some u \<and> users (snd (upsertRemoteUser nfc user st)) r = Some u' \<and>
                  userId u' = userId u)"
proof -
  from find_Some_D[OF assms] obtain u where u: "users st r = Some u"
    by (auto simp: same_id_def split: option.splits)
  show ?thesis
    using assms u
    by (auto simp: upsertRemoteUser_def Let_def split: option.splits sum.splits)
qed

lemma upsert_new:
  assumes "find (same_id nfc st (p_userId user)) (remoteUsers st) = None"
  shows "snd (upsertRemoteUser nfc user st) = st \<or>
         (remoteUsers (snd (upsertRemoteUser nfc user st)) = remoteUsers st @ [nextRef st] \<and>
          nextRef st < nextRef (snd (upsertRemoteUser nfc user st)) \<and>
          (\<forall>q. q \<noteq> nextRef st \<longrightarrow> users (snd (upsertRemoteUser nfc user st)) q = users st q) \<and>
          (\<exists>u. users (snd (upsertRemoteUser nfc user st)) (nextRef st) = Some u \<and>
               userId u = normalizeId nfc (p_userId user)))"
  using assms
  by (auto simp: upsertRemoteUser_def createRemoteUser_def Let_def split: option.splits sum.splits)


lemma same_id_key: "same_id nfc st v r \<longleftrightarrow> key_of nfc st r = Some (normalizeId nfc v)"
  by (simp add: same_id_def key_of_def split: option.splits)

lemma upsert_table_inv:
  assumes nfc: "nfc_stable nfc" and wf: "table_wf st" and un: "unique_ids nfc st"
  shows "table_wf (snd (upsertRemoteUser nfc user st)) \<and>
         unique_ids nfc (snd (upsertRemoteUser nfc user st)) \<and>
         (Some (normalizeId nfc (p_userId user)) \<in> set (table_keys nfc st) \<longrightarrow>
            remoteUsers (snd (upsertRemoteUser nfc user st)) = remoteUsers st \<and>
            table_keys nfc (snd (upsertRemoteUser nfc user st)) = table_keys nfc st)"
proof (cases "find (same_id nfc st (p_userId user)) (remoteUsers st)")
  case (Some r)
  let ?st' = "snd (upsertRemoteUser nfc user st)"
  note ex = upsert_existing[OF Some]
  have keys: "key_of nfc ?st' q = key_of nfc st q" for q
  proof (cases "q = r")
    case True
    with ex show ?thesis by (auto simp: key_of_def)
  next
    case False
    with ex show ?thesis by (simp add: key_of_def)
  qed
  have tk: "table_keys nfc ?st' = table_keys nfc st"
    using ex keys by (simp add: table_keys_def)
  have "table_wf ?st'"
    unfolding table_wf_def
  proof
    fix q assume "q \<in> set (remoteUsers ?st')"
    then have q: "q \<in> set (remoteUsers st)" using ex by simp
    with wf have "q < nextRef st" "users st q \<noteq> None" by (auto simp: table_wf_def)
    moreover have "users ?st' q \<noteq> None"
    proof (cases "q = r")
      case True
      with ex show ?thesis by auto
    next
      case False
      with ex \<open>users st q \<noteq> None\<close> show ?thesis by simp
    qed
    ultimately show "q < nextRef ?st' \<and> users ?st' q \<noteq> None"
      using ex by auto
  qed
  moreover have "unique_ids nfc ?st'"
    using un tk by (simp add: unique_ids_def)
  ultimately show ?thesis using ex tk by simp
next
  case None
  let ?st' = "snd (upsertRemoteUser nfc user st)"
  let ?n = "nextRef st"
  have notin: "Some (normalizeId nfc (p_userId user)) \<notin> set (table_keys nfc st)"
    using find_None_D[OF None] by (auto simp: table_keys_def same_id_key)
  from upsert_new[OF None] consider (same) "?st' = st"
    | (app) "remoteUsers ?st' = remoteUsers st @ [?n]" "?n < nextRef ?st'"
        "\<forall>q. q \<noteq> ?n \<longrightarrow> users ?st' q = users st q"
        "\<exists>u. users ?st' ?n = Some u \<and> userId u = normalizeId nfc (p_userId user)"
    by blast
  then show ?thesis
  proof cases
    case same
    with wf un notin show ?thesis by simp
  next
    case app
    have fresh: "?n \<notin> set (remoteUsers st)"
      using wf by (auto simp: table_wf_def)
    have old: "key_of nfc ?st' q = key_of nfc st q" if "q \<in> set (remoteUsers st)" for q
    proof -
      from that fresh have "q \<noteq> ?n" by auto
      with app(3) have "users ?st' q = users st q" by simp
      then show ?thesis by (simp add: key_of_def)
    qed
    have new: "key_of nfc ?st' ?n = Some (normalizeId nfc (p_userId user))"
      using app(4) normalizeId_idem[OF nfc] by (auto simp: key_of_def)
    have tk: "table_keys nfc ?st' = table_keys nfc st @ [Some (normalizeId nfc (p_userId user))]"
      using app(1) old new by (simp add: table_keys_def)
    have "table_wf ?st'"
      unfolding table_wf_def
    proof
      fix q assume "q \<in> set (remoteUsers ?st')"
      then consider "q \<in> set (remoteUsers st)" | "q = ?n" using app(1) by auto
      then show "q < nextRef ?st' \<and> users ?st' q \<noteq> None"
      proof cases
        case 1
        with wf have "q < ?n" "users st q \<noteq> None" by (auto simp: table_wf_def)
        with app(2,3) show ?thesis by auto
      next
        case 2
        with app(2,4) show ?thesis by auto
      qed
    qed
    moreover have "unique_ids nfc ?st'"
      using un tk notin by (simp add: unique_ids_def)
    ultimately show ?thesis using notin by simp
  qed
qed

subsection \<open>Quiet steps\<close>

lemma same_core_refl: "same_core u u"
  by (simp add: same_core_def)

lemma extends_refl: "extends xs xs"
  by (simp add: extends_def)

lemma rel_option_same_core_refl: "rel_option same_core x x"
  by (cases x) (simp_all add: same_core_refl)

lemma rel_option_extends_refl: "rel_option extends x x"
  by (cases x) (simp_all add: extends_refl)

lemma quiet_refl: "quiet st st"
  by (simp add: quiet_def rel_option_same_core_refl rel_option_extends_refl)

lemma same_core_trans: "same_core a b \<Longrightarrow> same_core b c \<Longrightarrow> same_core a c"
  by (simp add: same_core_def)

lemma extends_trans: "extends a b \<Longrightarrow> extends b c \<Longrightarrow> extends a c"
  by (auto simp: extends_def)

lemma rel_option_trans:
  assumes "\<And>a b c. R a b \<Longrightarrow> R b c \<Longrightarrow> R a c"
  shows "rel_option R x y \<Longrightarrow> rel_option R y z \<Longrightarrow> rel_option R x z"
  using assms by (cases x; cases y; cases z) auto

lemma quiet_trans:
  assumes ab: "quiet a b" and bc: "quiet b c"
  shows "quiet a c"
proof -
  have "remoteUsers c = remoteUsers a" "nextRef a \<le> nextRef c"
    using ab bc by (auto simp: quiet_def)
  moreover have "rel_option same_core (users a r) (users c r)" for r
  proof (rule rel_option_trans[where y = "users b r"])
    show "same_core x y \<Longrightarrow> same_core y z \<Longrightarrow> same_core x z" for x y z
      by (rule same_core_trans)
    show "rel_option same_core (users a r) (users b r)" using ab by (simp add: quiet_def)
    show "rel_option same_core (users b r) (users c r)" using bc by (simp add: quiet_def)
  qed
  moreover have "rel_option extends (streams a s) (streams c s)" for s
  proof (rule rel_option_trans[where y = "streams b s"])
    show "extends x y \<Longrightarrow> extends y z \<Longrightarrow> extends x z" for x y z :: "track list"
      by (rule extends_trans)
    show "rel_option extends (streams a s) (streams b s)" using ab by (simp add: quiet_def)
    show "rel_option extends (streams b s) (streams c s)" using bc by (simp add: quiet_def)
  qed
  ultimately show ?thesis by (simp add: quiet_def)
qed

text \<open>A step that changes neither the table, the counter, the users nor the streams.\<close>

lemma quiet_same:
  "remoteUsers st' = remoteUsers st \<Longrightarrow> nextRef st' = nextRef st \<Longrightarrow> users st' = users st \<Longrightarrow>
   streams st' = streams st \<Longrightarrow> quiet st st'"
  by (simp add: quiet_def rel_option_same_core_refl rel_option_extends_refl)

lemma quiet_alert: "quiet st (alert m st)"
  by (rule quiet_same) (simp_all add: alert_def)

lemma quiet_set_stage: "quiet st (set_stage c sg st)"
  by (rule quiet_same) (simp_all add: set_stage_def)

lemma quiet_upd_videoEl: "quiet st (upd_videoEl v f st)"
  by (rule quiet_same) (simp_all add: upd_videoEl_def split: option.splits)

lemma quiet_pullRemoteUser: "quiet st (pullRemoteUser room uid specs st)"
  by (rule quiet_same) (simp_all add: pullRemoteUser_def Let_def split: option.splits prod.splits)

lemma quiet_pull_offerResult: "quiet st (pull_offerResult c offer st)"
  by (rule quiet_same)
    (simp_all add: pull_offerResult_def set_stage_def Let_def split: option.splits prod.splits sum.splits)

lemma quiet_pull_response: "quiet st (pull_response c resp st)"
  by (rule quiet_same)
    (simp_all add: pull_response_def set_stage_def Let_def split: option.splits prod.splits sum.splits)

lemma quiet_track_listener: "quiet st (track_listener w t c st)"
  by (rule quiet_same) (simp_all add: track_listener_def Let_def)

lemma quiet_foldl:
  assumes "\<And>s x. quiet s (f s x)"
  shows "quiet st (foldl f st xs)"
proof (induction xs arbitrary: st)
  case Nil
  show ?case by (simp add: quiet_refl)
next
  case (Cons x xs)
  have "quiet st (f st x)" by (rule assms)
  moreover have "quiet (f st x) (foldl f (f st x) xs)" by (rule Cons.IH)
  ultimately show ?case by (simp add: quiet_trans)
qed

lemma quiet_dispatch_track: "quiet st (dispatch_track w t st)"
  unfolding dispatch_track_def
  by (auto simp: quiet_refl quiet_track_listener intro!: quiet_foldl split: option.splits)

lemma quiet_user_upd:
  "users st r = Some u \<Longrightarrow> same_core u u' \<Longrightarrow> quiet st (st\<lparr>users := (users st)(r := Some u')\<rparr>)"
  by (simp add: quiet_def rel_option_same_core_refl rel_option_extends_refl)

lemma quiet_addTrack: "quiet st (addTrack s t st)"
  by (auto simp: addTrack_def quiet_def rel_option_same_core_refl rel_option_extends_refl extends_def
      split: option.splits)

lemma quiet_trackEnabled: "quiet st (st\<lparr>trackEnabled := f\<rparr>)"
  by (rule quiet_same) simp_all

lemma quiet_append_track: "quiet st (snd (append_track r t st))"
proof (cases "users st r")
  case None
  then show ?thesis by (simp add: append_track_def quiet_refl)
next
  case (Some u)
  define st1 where "st1 = (if fst t = Video \<and> truthy (videoMuted u)
                           then st\<lparr>trackEnabled := (trackEnabled st)(t := False)\<rparr> else st)"
  define st2 where "st2 = (if fst t = Audio \<and> truthy (audioMuted u)
                           then st1\<lparr>trackEnabled := (trackEnabled st1)(t := False)\<rparr> else st1)"
  have q: "quiet st st2"
    by (rule quiet_same) (simp_all add: st1_def st2_def)
  have "append_track r t st =
          (case playStream u of None \<Rightarrow> (Some TypeError, st2) | Some s \<Rightarrow> (None, addTrack s t st2))"
    unfolding append_track_def st1_def st2_def Let_def by (simp add: Some)
  then show ?thesis
    using q quiet_trans[OF q quiet_addTrack] by (auto split: option.splits)
qed

lemma quiet_append_tracks: "quiet st (snd (append_tracks r ts st))"
proof (induction ts arbitrary: st)
  case Nil
  show ?case by (simp add: quiet_refl)
next
  case (Cons t ts)
  obtain e st1 where a: "append_track r t st = (e, st1)" by (cases "append_track r t st")
  have q1: "quiet st st1" using quiet_append_track[of st r t] a by simp
  show ?case
  proof (cases e)
    case None
    with a q1 Cons.IH[of st1] show ?thesis by (auto intro: quiet_trans)
  next
    case (Some x)
    with a q1 show ?thesis by simp
  qed
qed

lemma quiet_pull_resume: "quiet st (pull_resume c st)"
proof -
  obtain e st1 where a: "append_tracks (c_user (calls st ! c)) (c_tracks (calls st ! c)) st = (e, st1)"
    by (cases "append_tracks (c_user (calls st ! c)) (c_tracks (calls st ! c)) st")
  have q1: "quiet st st1"
    using quiet_append_tracks[of st "c_user (calls st ! c)" "c_tracks (calls st ! c)"] a by simp
  have q2: "quiet st (set_stage c sg st1)" for sg
    by (rule quiet_trans[OF q1 quiet_set_stage])
  have q3: "quiet st (set_stage c sg (upd_videoEl v f st1))" for sg v f
    by (rule quiet_trans[OF q1 quiet_trans[OF quiet_upd_videoEl quiet_set_stage]])
  show ?thesis
    using a q2 q3
    by (auto simp: pull_resume_def Let_def quiet_refl split: option.splits)
qed

lemma quiet_setTrackEnabledForUser: "quiet st (setTrackEnabledForUser r k en st)"
  by (rule quiet_same)
    (simp_all add: setTrackEnabledForUser_def upd_videoEl_def Let_def split: option.splits)

lemma quiet_toggleAudioMute: "quiet st (toggleAudioMute r st)"
proof (cases "users st r")
  case None
  then show ?thesis by (simp add: toggleAudioMute_def quiet_refl)
next
  case (Some u)
  have "quiet st (st\<lparr>users := (users st)(r := Some (u\<lparr>audioMuted := m\<rparr>))\<rparr>)" for m
    by (rule quiet_user_upd[OF Some]) (simp add: same_core_def)
  then show ?thesis
    using Some by (auto simp: toggleAudioMute_def Let_def intro: quiet_trans quiet_setTrackEnabledForUser)
qed

lemma quiet_toggleVideoMute: "quiet st (toggleVideoMute r st)"
proof (cases "users st r")
  case None
  then show ?thesis by (simp add: toggleVideoMute_def quiet_refl)
next
  case (Some u)
  have "quiet st (st\<lparr>users := (users st)(r := Some (u\<lparr>videoMuted := m\<rparr>))\<rparr>)" for m
    by (rule quiet_user_upd[OF Some]) (simp add: same_core_def)
  then show ?thesis
    using Some by (auto simp: toggleVideoMute_def Let_def intro: quiet_trans quiet_setTrackEnabledForUser)
qed

lemma quiet_setVideoRef: "quiet st (setVideoRef r v st)"
proof (cases "users st r")
  case None
  then show ?thesis by (simp add: setVideoRef_def quiet_refl)
next
  case (Some u)
  have q: "quiet st (st\<lparr>users := (users st)(r := Some (u\<lparr>videoRef := Some v\<rparr>))\<rparr>)"
    by (rule quiet_user_upd[OF Some]) (simp add: same_core_def)
  then show ?thesis
    using Some
    by (auto simp: setVideoRef_def Let_def split: option.splits intro: quiet_trans[OF q quiet_upd_videoEl])
qed

lemma quiet_set_user_state: "quiet st (set_user_state v cs st)"
proof -
  have "quiet st (st\<lparr>users := (users st)(r := Some (u\<lparr>state := Some cs\<rparr>))\<rparr>)"
    if "users st r = Some u" for r u
    by (rule quiet_user_upd[OF that]) (simp add: same_core_def)
  then show ?thesis
    by (auto simp: set_user_state_def Let_def quiet_refl split: option.splits)
qed

lemma quiet_onJoin: "quiet st (onJoin st)"
  by (rule quiet_same) (simp_all add: onJoin_def alert_def split: option.splits)

lemma quiet_onJoin_connected: "quiet st (onJoin_connected res st)"
  by (rule quiet_same) (simp_all add: onJoin_connected_def alert_def Let_def split: option.splits sum.splits)

lemma quiet_pull_all: "quiet st (pull_all st)"
  unfolding pull_all_def
  by (rule quiet_foldl) (auto simp: quiet_refl quiet_pullRemoteUser split: option.splits)

subsection \<open>Collecting tracks\<close>

lemma track_listener_calls:
  "calls (track_listener w t c st) =
     (if c < length (calls st)
      then (calls st)[c := (calls st ! c)
             \<lparr>c_tracks := c_tracks (calls st ! c) @ [t],
              c_stage := (if length (c_specs (calls st ! c)) \<le> Suc (length (c_tracks (calls st ! c)))
                          then Resolved else c_stage (calls st ! c))\<rparr>]
      else calls st)"
  by (simp add: track_listener_def Let_def)

lemma track_listener_pcwraps:
  "pcwraps (track_listener w t c st) w' =
     (if w' = w \<and> c < length (calls st) \<and>
         length (c_specs (calls st ! c)) \<le> Suc (length (c_tracks (calls st ! c)))
      then map_option (unsubscribe c) (pcwraps st w)
      else pcwraps st w')"
  by (simp add: track_listener_def Let_def split: option.splits)

lemma track_listener_length: "length (calls (track_listener w t c st)) = length (calls st)"
  by (simp add: track_listener_calls)

lemma foldl_listener_length:
  "length (calls (foldl (\<lambda>s c. track_listener w t c s) st cs)) = length (calls st)"
  by (induction cs arbitrary: st) (simp_all add: track_listener_length)

lemma foldl_listener_other:
  "c \<notin> set cs \<Longrightarrow> calls (foldl (\<lambda>s c. track_listener w t c s) st cs) ! c = calls st ! c"
proof (induction cs arbitrary: st)
  case Nil
  then show ?case by simp
next
  case (Cons a cs)
  then have "c \<noteq> a" "c \<notin> set cs" by auto
  then show ?case
    using Cons.IH[of "track_listener w t a st"] by (simp add: track_listener_calls)
qed

lemma foldl_listener_self:
  assumes "c \<in> set cs" "distinct cs" "c < length (calls st)"
  shows "calls (foldl (\<lambda>s c. track_listener w t c s) st cs) ! c =
           (calls st ! c)
             \<lparr>c_tracks := c_tracks (calls st ! c) @ [t],
              c_stage := (if length (c_specs (calls st ! c)) \<le> Suc (length (c_tracks (calls st ! c)))
                          then Resolved else c_stage (calls st ! c))\<rparr>"
  using assms
proof (induction cs arbitrary: st)
  case Nil
  then show ?case by simp
next
  case (Cons a cs)
  show ?case
  proof (cases "c = a")
    case True
    with Cons.prems have "c \<notin> set cs" by simp
    from foldl_listener_other[OF this, of w t "track_listener w t a st"] True Cons.prems(3)
    show ?thesis by (simp add: track_listener_calls)
  next
    case False
    with Cons.prems have c: "c \<in> set cs" "distinct cs" by auto
    have "c < length (calls (track_listener w t a st))"
      using Cons.prems(3) by (simp add: track_listener_length)
    from Cons.IH[OF c this] False show ?thesis
      by (simp add: track_listener_calls)
  qed
qed

lemma foldl_listener_wrap:
  assumes "distinct cs" "pcwraps st w = Some pw"
  shows "\<exists>ls. pcwraps (foldl (\<lambda>s c. track_listener w t c s) st cs) w = Some (pw\<lparr>trackListeners := ls\<rparr>) \<and>
              (\<forall>x. x \<in> set ls \<longleftrightarrow> x \<in> set (trackListeners pw) \<and> \<not> (x \<in> set cs \<and> completes st x))"
  using assms
proof (induction cs arbitrary: st pw)
  case Nil
  then show ?case by (intro exI[of _ "trackListeners pw"]) simp
next
  case (Cons a cs)
  let ?st1 = "track_listener w t a st"
  let ?ls1 = "if completes st a then filter (\<lambda>x. x \<noteq> a) (trackListeners pw) else trackListeners pw"
  have d: "distinct cs" "a \<notin> set cs" using Cons.prems by auto
  have same: "completes ?st1 x = completes st x" if "x \<in> set cs" for x
  proof -
    from that d(2) have "x \<noteq> a" by auto
    then show ?thesis by (simp add: completes_def track_listener_calls)
  qed
  have w1: "pcwraps ?st1 w = Some (pw\<lparr>trackListeners := ?ls1\<rparr>)"
    using Cons.prems(2) by (simp add: track_listener_pcwraps completes_def unsubscribe_def)
  from Cons.IH[OF d(1) w1] obtain ls where
    ls: "pcwraps (foldl (\<lambda>s c. track_listener w t c s) ?st1 cs) w =
           Some (pw\<lparr>trackListeners := ?ls1, trackListeners := ls\<rparr>)"
        "\<forall>x. x \<in> set ls \<longleftrightarrow> x \<in> set ?ls1 \<and> \<not> (x \<in> set cs \<and> completes ?st1 x)"
    by auto
  have "\<forall>x. x \<in> set ls \<longleftrightarrow> x \<in> set (trackListeners pw) \<and> \<not> (x \<in> set (a # cs) \<and> completes st x)"
    using ls(2) same by auto
  with ls(1) show ?case by (intro exI[of _ ls]) simp
qed

lemma ex_waiting_eq:
  "ex_waiting = (init_state ''hn64gxaw'')
      \<lparr>wsStatus := WsJoined, peer := Some False, remoteUsers := [0],
       users := (\<lambda>_. None)(0 := Some ex_remote_late),
       pcwraps := (\<lambda>_. None)(1 := Some ex_wait_wrap), streams := (\<lambda>_. None)(2 := Some []),
       nextRef := 3, calls := [ex_call]\<rparr>"
  by (simp add: ex_waiting_def step_def onJoin_def onJoin_connected_def onJoin_response_def
      init_state_def upsertRemoteUser_def createRemoteUser_def same_id_def normalizeId_def trim_def is_ws_def
      pull_all_def onNotification_def ex_user_def ex_video_def pcw_defs pullRemoteUser_def has_userId_def
      pull_offerResult_def pull_response_def set_stage_def setRemoteDescription_def on_track_def ex_answer_def
      Let_def ex_remote_late_def ex_wait_wrap_def ex_call_def numeral_2_eq_2 numeral_3_eq_3)

lemma dispatch_closed:
  "pcwraps st w = Some pw \<Longrightarrow> pc pw = None \<Longrightarrow> dispatch_track w t st = st"
  by (simp add: dispatch_track_def)

lemma dispatch_track_listeners:
  assumes w: "pcwraps st w = Some pw" and live: "pc pw \<noteq> None"
    and d: "distinct (trackListeners pw)"
  shows "length (calls (dispatch_track w t st)) = length (calls st) \<and>
         (\<forall>c. c \<notin> set (trackListeners pw) \<longrightarrow> calls (dispatch_track w t st) ! c = calls st ! c) \<and>
         (\<forall>c. c \<in> set (trackListeners pw) \<and> c < length (calls st) \<longrightarrow>
            calls (dispatch_track w t st) ! c =
              (calls st ! c)\<lparr>c_tracks := c_tracks (calls st ! c) @ [t],
                 c_stage := (if completes st c then Resolved else c_stage (calls st ! c))\<rparr>) \<and>
         (\<exists>ls. pcwraps (dispatch_track w t st) w = Some (pw\<lparr>trackListeners := ls\<rparr>) \<and>
            (\<forall>x. x \<in> set ls \<longleftrightarrow> x \<in> set (trackListeners pw) \<and> \<not> completes st x))"
proof -
  have eq: "dispatch_track w t st = foldl (\<lambda>s c. track_listener w t c s) st (trackListeners pw)"
    using w live by (auto simp: dispatch_track_def)
  have 1: "length (calls (dispatch_track w t st)) = length (calls st)"
    by (simp add: eq foldl_listener_length)
  have 2: "calls (dispatch_track w t st) ! c = calls st ! c" if "c \<notin> set (trackListeners pw)" for c
    using that by (simp add: eq foldl_listener_other)
  have 3: "calls (dispatch_track w t st) ! c =
              (calls st ! c)\<lparr>c_tracks := c_tracks (calls st ! c) @ [t],
                 c_stage := (if completes st c then Resolved else c_stage (calls st ! c))\<rparr>"
    if "c \<in> set (trackListeners pw)" "c < length (calls st)" for c
    using foldl_listener_self[OF that(1) d that(2), of w t] that(2)
    by (simp add: eq completes_def)
  from foldl_listener_wrap[OF d w, of t] obtain ls where
    "pcwraps (dispatch_track w t st) w = Some (pw\<lparr>trackListeners := ls\<rparr>)"
    "\<forall>x. x \<in> set ls \<longleftrightarrow> x \<in> set (trackListeners pw) \<and> \<not> (x \<in> set (trackListeners pw) \<and> completes st x)"
    unfolding eq by blast
  then have 4: "\<exists>ls. pcwraps (dispatch_track w t st) w = Some (pw\<lparr>trackListeners := ls\<rparr>) \<and>
            (\<forall>x. x \<in> set ls \<longleftrightarrow> x \<in> set (trackListeners pw) \<and> \<not> completes st x)"
    by (intro exI[of _ ls]) blast
  show ?thesis
  proof (intro conjI allI impI)
    show "length (calls (dispatch_track w t st)) = length (calls st)" by (rule 1)
    show "calls (dispatch_track w t st) ! c = calls st ! c" if "c \<notin> set (trackListeners pw)" for c
      using that by (rule 2)
    show "calls (dispatch_track w t st) ! c =
              (calls st ! c)\<lparr>c_tracks := c_tracks (calls st ! c) @ [t],
                 c_stage := (if completes st c then Resolved else c_stage (calls st ! c))\<rparr>"
      if "c \<in> set (trackListeners pw) \<and> c < length (calls st)" for c
      using that 3 by blast
    show "\<exists>ls. pcwraps (dispatch_track w t st) w = Some (pw\<lparr>trackListeners := ls\<rparr>) \<and>
            (\<forall>x. x \<in> set ls \<longleftrightarrow> x \<in> set (trackListeners pw) \<and> \<not> completes st x)"
      by (rule 4)
  qed
qed

text \<open>
  Claim C3, as the code has it. While a subscribe call waits with fewer tracks than
  specs, every track event of its wrapper appends the track to the call's list,
  whatever the kind of the track; the wait is over exactly when the number of collected
  tracks reaches the number of specs; exactly then the listener is taken off the
  wrapper; and a track event changes no call that has no listener on the wrapper, so a
  call that is detached ignores later tracks. The kind of a track is not compared with
  the kind of any slot.
\<close>

theorem track_wait_counts_tracks:
  assumes "pcwraps st w = Some pw" "pc pw \<noteq> None" "distinct (trackListeners pw)"
    and "c \<in> set (trackListeners pw)" "c < length (calls st)"
    and "c_stage (calls st ! c) = AwaitTracks"
    and "length (c_tracks (calls st ! c)) < length (c_specs (calls st ! c))"
  shows "c_tracks (calls (dispatch_track w t st) ! c) = c_tracks (calls st ! c) @ [t] \<and>
         c_specs (calls (dispatch_track w t st) ! c) = c_specs (calls st ! c) \<and>
         c_stage (calls (dispatch_track w t st) ! c) =
           (if Suc (length (c_tracks (calls st ! c))) = length (c_specs (calls st ! c))
            then Resolved else AwaitTracks) \<and>
         (\<exists>pw'. pcwraps (dispatch_track w t st) w = Some pw' \<and>
            (c \<in> set (trackListeners pw') \<longleftrightarrow>
               Suc (length (c_tracks (calls st ! c))) < length (c_specs (calls st ! c)))) \<and>
         (\<forall>d. d \<notin> set (trackListeners pw) \<longrightarrow> calls (dispatch_track w t st) ! d = calls st ! d)"
proof -
  note L = dispatch_track_listeners[OF assms(1,2,3), of t]
  have comp: "completes st c \<longleftrightarrow> Suc (length (c_tracks (calls st ! c))) = length (c_specs (calls st ! c))"
    using assms(5,7) by (auto simp: completes_def)
  note L2 = L[THEN conjunct2, THEN conjunct1]
  note L3 = L[THEN conjunct2, THEN conjunct2, THEN conjunct1]
  note L4 = L[THEN conjunct2, THEN conjunct2, THEN conjunct2]
  have call: "calls (dispatch_track w t st) ! c =
              (calls st ! c)\<lparr>c_tracks := c_tracks (calls st ! c) @ [t],
                 c_stage := (if completes st c then Resolved else c_stage (calls st ! c))\<rparr>"
    using L3[rule_format, of c] assms(4,5) by simp
  from L4 obtain ls where ls: "pcwraps (dispatch_track w t st) w = Some (pw\<lparr>trackListeners := ls\<rparr>)"
    "\<forall>x. x \<in> set ls \<longleftrightarrow> x \<in> set (trackListeners pw) \<and> \<not> completes st x" by (elim exE conjE)
  have "c \<in> set ls \<longleftrightarrow> \<not> completes st c"
    using ls(2)[rule_format, of c] assms(4) by simp
  also have "\<dots> \<longleftrightarrow> Suc (length (c_tracks (calls st ! c))) < length (c_specs (calls st ! c))"
    using assms(7) comp by arith
  finally have "c \<in> set ls \<longleftrightarrow> Suc (length (c_tracks (calls st ! c))) < length (c_specs (calls st ! c))" .
  with ls(1) have det: "\<exists>pw'. pcwraps (dispatch_track w t st) w = Some pw' \<and>
            (c \<in> set (trackListeners pw') \<longleftrightarrow>
               Suc (length (c_tracks (calls st ! c))) < length (c_specs (calls st ! c)))"
    by (intro exI[of _ "pw\<lparr>trackListeners := ls\<rparr>"]) simp
  have oth: "\<forall>d. d \<notin> set (trackListeners pw) \<longrightarrow> calls (dispatch_track w t st) ! d = calls st ! d"
    by (rule L2)
  show ?thesis
  proof (intro conjI)
    show "c_tracks (calls (dispatch_track w t st) ! c) = c_tracks (calls st ! c) @ [t]"
      by (simp add: call)
    show "c_specs (calls (dispatch_track w t st) ! c) = c_specs (calls st ! c)"
      by (simp add: call)
    show "c_stage (calls (dispatch_track w t st) ! c) =
           (if Suc (length (c_tracks (calls st ! c))) = length (c_specs (calls st ! c))
            then Resolved else AwaitTracks)"
      using comp assms(6) by (simp add: call)
    show "\<exists>pw'. pcwraps (dispatch_track w t st) w = Some pw' \<and>
            (c \<in> set (trackListeners pw') \<longleftrightarrow>
               Suc (length (c_tracks (calls st ! c))) < length (c_specs (calls st ! c)))"
      by (rule det)
    show "\<forall>d. d \<notin> set (trackListeners pw) \<longrightarrow> calls (dispatch_track w t st) ! d = calls st ! d"
      by (rule oth)
  qed
qed

lemma ex_two_calls_calls:
  "map c_stage (calls ex_two_calls) = [AwaitTracks, AwaitTracks] \<and>
   map (map spec_type \<circ> c_specs) (calls ex_two_calls) = [[Video], [Video, Audio]] \<and>
   map c_tracks (calls ex_two_calls) = [[], []] \<and>
   map_option (\<lambda>pw. (trackListeners pw, map_option (map t_kind \<circ> transceivers) (pc pw)))
     (pcwraps ex_two_calls 1) = Some ([0, 1], Some [Video, Audio])"
  by (simp add: ex_two_calls_def ex_waiting_eq step_def init_state_def upsertRemoteUser_def same_id_def
      normalizeId_def trim_def is_ws_def onNotification_def ex_video_def ex_audio_def pcw_defs
      pullRemoteUser_def has_userId_def pull_offerResult_def pull_response_def set_stage_def
      setRemoteDescription_def on_track_def ex_answer_def Let_def ex_remote_late_def ex_wait_wrap_def
      ex_call_def)

text \<open>
  The claim as stated fails. The session of user 6725 has a video and an audio
  transceiver and two waiting calls: the first asked for the video alone, the second for
  both. The audio track arrives first and resolves the first call, whose only slot is a
  video slot.
\<close>

theorem track_wait_kind_counterexample:
  "c_stage (calls ex_two_calls ! 0) = AwaitTracks \<and>
   map spec_type (c_specs (calls ex_two_calls ! 0)) = [Video] \<and>
   c_stage (calls (step (\<lambda>s. s) (TrackEvent 1 (Audio, 5)) ex_two_calls) ! 0) = Resolved \<and>
   c_tracks (calls (step (\<lambda>s. s) (TrackEvent 1 (Audio, 5)) ex_two_calls) ! 0) = [(Audio, 5)] \<and>
   \<not> one_track_per_slot (calls (step (\<lambda>s. s) (TrackEvent 1 (Audio, 5)) ex_two_calls) ! 0)"
  by (auto simp: ex_two_calls_def ex_waiting_eq step_def init_state_def upsertRemoteUser_def same_id_def
      normalizeId_def trim_def is_ws_def onNotification_def ex_video_def ex_audio_def pcw_defs
      pullRemoteUser_def has_userId_def pull_offerResult_def pull_response_def set_stage_def
      setRemoteDescription_def on_track_def ex_answer_def Let_def ex_remote_late_def ex_wait_wrap_def
      ex_call_def dispatch_track_def track_listener_def one_track_per_slot_def unsubscribe_def
      intro: exI[of _ Video])

theorem track_wait_counts_tracks_witness:
  "pcwraps ex_waiting 1 = Some ex_wait_wrap \<and> pc ex_wait_wrap \<noteq> None \<and>
   distinct (trackListeners ex_wait_wrap) \<and> 0 \<in> set (trackListeners ex_wait_wrap) \<and>
   0 < length (calls ex_waiting) \<and> c_stage (calls ex_waiting ! 0) = AwaitTracks \<and>
   length (c_tracks (calls ex_waiting ! 0)) < length (c_specs (calls ex_waiting ! 0)) \<and>
   c_tracks (calls (dispatch_track 1 (Video, 4) ex_waiting) ! 0) = [(Video, 4)] \<and>
   c_stage (calls (dispatch_track 1 (Video, 4) ex_waiting) ! 0) = Resolved \<and>
   (\<exists>pw'. pcwraps (dispatch_track 1 (Video, 4) ex_waiting) 1 = Some pw' \<and>
      0 \<notin> set (trackListeners pw')) \<and>
   calls (dispatch_track 1 (Video, 9) (dispatch_track 1 (Video, 4) ex_waiting)) ! 0 =
     calls (dispatch_track 1 (Video, 4) ex_waiting) ! 0"
  using track_wait_counts_tracks[of ex_waiting 1 ex_wait_wrap 0 "(Video, 4)"]
  by (simp add: ex_waiting_eq init_state_def dispatch_track_def track_listener_def ex_wait_wrap_def
      ex_call_def Let_def unsubscribe_def)

subsection \<open>Appending the collected tracks\<close>

lemma append_track_proj:
  assumes "users st r = Some u" "playStream u = Some s" "streams st s = Some old"
  shows "fst (append_track r t st) = None \<and>
         users (snd (append_track r t st)) = users st \<and>
         calls (snd (append_track r t st)) = calls st \<and>
         pcwraps (snd (append_track r t st)) = pcwraps st \<and>
         videoEls (snd (append_track r t st)) = videoEls st \<and>
         trackEnabled (snd (append_track r t st)) =
           (\<lambda>x. if x = t \<and> muted_flag u (fst t) then False else trackEnabled st x) \<and>
         streams (snd (append_track r t st)) s = Some (if t \<in> set old then old else old @ [t])"
proof (cases "fst t")
  case Audio
  then show ?thesis
    using assms by (auto simp: append_track_def addTrack_def muted_flag_def Let_def fun_eq_iff)
next
  case Video
  then show ?thesis
    using assms by (auto simp: append_track_def addTrack_def muted_flag_def Let_def fun_eq_iff)
qed

lemma append_tracks_proj:
  assumes "users st r = Some u" "playStream u = Some s" "streams st s = Some old"
  shows "fst (append_tracks r ts st) = None \<and>
         users (snd (append_tracks r ts st)) = users st \<and>
         calls (snd (append_tracks r ts st)) = calls st \<and>
         pcwraps (snd (append_tracks r ts st)) = pcwraps st \<and>
         videoEls (snd (append_tracks r ts st)) = videoEls st \<and>
         trackEnabled (snd (append_tracks r ts st)) =
           (\<lambda>x. if x \<in> set ts \<and> muted_flag u (fst x) then False else trackEnabled st x) \<and>
         (\<exists>new. streams (snd (append_tracks r ts st)) s = Some (old @ new) \<and>
                set new \<subseteq> set ts \<and> set ts \<subseteq> set (old @ new))"
  using assms
proof (induction ts arbitrary: st old)
  case Nil
  then show ?case by simp
next
  case (Cons t ts)
  obtain e st1 where a: "append_track r t st = (e, st1)" by (cases "append_track r t st")
  let ?old1 = "if t \<in> set old then old else old @ [t]"
  from append_track_proj[OF Cons.prems, of t] a
  have p: "e = None" "users st1 = users st" "calls st1 = calls st" "pcwraps st1 = pcwraps st"
    "videoEls st1 = videoEls st"
    "trackEnabled st1 = (\<lambda>x. if x = t \<and> muted_flag u (fst t) then False else trackEnabled st x)"
    "streams st1 s = Some ?old1"
    by simp_all
  have u1: "users st1 r = Some u" using p(2) Cons.prems(1) by simp
  note IH = Cons.IH[OF u1 Cons.prems(2) p(7)]
  have eq: "append_tracks r (t # ts) st = append_tracks r ts st1"
    using a p(1) by simp
  from IH obtain new where
    n: "streams (snd (append_tracks r ts st1)) s = Some (?old1 @ new)"
       "set new \<subseteq> set ts" "set ts \<subseteq> set (?old1 @ new)"
    by blast
  let ?new = "(if t \<in> set old then [] else [t]) @ new"
  have str: "\<exists>new. streams (snd (append_tracks r (t # ts) st)) s = Some (old @ new) \<and>
                set new \<subseteq> set (t # ts) \<and> set (t # ts) \<subseteq> set (old @ new)"
  proof (intro exI[of _ ?new] conjI)
    show "streams (snd (append_tracks r (t # ts) st)) s = Some (old @ ?new)"
      using n(1) by (simp add: eq del: append_tracks.simps)
    show "set ?new \<subseteq> set (t # ts)" using n(2) by auto
    show "set (t # ts) \<subseteq> set (old @ ?new)" using n(3) by auto
  qed
  have te: "trackEnabled (snd (append_tracks r (t # ts) st)) =
           (\<lambda>x. if x \<in> set (t # ts) \<and> muted_flag u (fst x) then False else trackEnabled st x)"
    using IH p(6) by (auto simp: eq fun_eq_iff simp del: append_tracks.simps)
  show ?case
    using IH p(2,3,4,5) te str by (simp add: eq del: append_tracks.simps)
qed

lemma pull_resume_proj:
  assumes "c < length (calls st)" "c_stage (calls st ! c) = Resolved"
    and "users st (c_user (calls st ! c)) = Some u" "playStream u = Some s" "streams st s = Some old"
  shows "trackEnabled (pull_resume c st) =
           (\<lambda>x. if x \<in> set (c_tracks (calls st ! c)) \<and> muted_flag u (fst x) then False
                else trackEnabled st x) \<and>
         users (pull_resume c st) = users st \<and>
         pcwraps (pull_resume c st) = pcwraps st \<and>
         (\<exists>new. streams (pull_resume c st) s = Some (old @ new) \<and>
                set new \<subseteq> set (c_tracks (calls st ! c)) \<and>
                set (c_tracks (calls st ! c)) \<subseteq> set (old @ new)) \<and>
         calls (pull_resume c st) = (calls st)[c := (calls st ! c)\<lparr>c_stage := Done\<rparr>]"
proof -
  let ?r = "c_user (calls st ! c)" and ?ts = "c_tracks (calls st ! c)"
  obtain e st1 where a: "append_tracks ?r ?ts st = (e, st1)" by (cases "append_tracks ?r ?ts st")
  from append_tracks_proj[OF assms(3,4,5), of ?ts] a
  have p: "e = None" "users st1 = users st" "calls st1 = calls st" "pcwraps st1 = pcwraps st"
    "trackEnabled st1 =
       (\<lambda>x. if x \<in> set ?ts \<and> muted_flag u (fst x) then False else trackEnabled st x)"
    "\<exists>new. streams st1 s = Some (old @ new) \<and> set new \<subseteq> set ?ts \<and> set ?ts \<subseteq> set (old @ new)"
    by simp_all
  define st2 where "st2 = (case videoRef u of
       Some v \<Rightarrow> upd_videoEl v (\<lambda>el. el\<lparr>srcObject := Some s, playsInline := True, muted := False\<rparr>) st1
     | None \<Rightarrow> st1)"
  have r: "pull_resume c st = set_stage c Done st2"
    using assms(1,2,3,4) a p(1,2) by (simp add: pull_resume_def st2_def Let_def split: option.splits)
  have q: "users st2 = users st1" "calls st2 = calls st1" "pcwraps st2 = pcwraps st1"
    "trackEnabled st2 = trackEnabled st1" "streams st2 = streams st1"
    by (simp_all add: st2_def upd_videoEl_def split: option.splits)
  show ?thesis
    unfolding r using assms(1) p q by (simp add: set_stage_def)
qed

lemma toggleVideoMute_proj:
  assumes "users st r = Some u"
  shows "users (toggleVideoMute r st) = (users st)(r := Some (u\<lparr>videoMuted := Some (\<not> truthy (videoMuted u))\<rparr>)) \<and>
         calls (toggleVideoMute r st) = calls st \<and>
         pcwraps (toggleVideoMute r st) = pcwraps st \<and>
         streams (toggleVideoMute r st) = streams st \<and>
         trackEnabled (toggleVideoMute r st) =
           (\<lambda>x. if (\<exists>s ts. playStream u = Some s \<and> streams st s = Some ts \<and> x \<in> set ts) \<and> fst x = Video
                then truthy (videoMuted u) else trackEnabled st x)"
  using assms
  by (auto simp: toggleVideoMute_def setTrackEnabledForUser_def upd_videoEl_def Let_def fun_eq_iff
      split: option.splits)

lemma toggleAudioMute_proj:
  assumes "users st r = Some u"
  shows "users (toggleAudioMute r st) = (users st)(r := Some (u\<lparr>audioMuted := Some (\<not> truthy (audioMuted u))\<rparr>)) \<and>
         calls (toggleAudioMute r st) = calls st \<and>
         pcwraps (toggleAudioMute r st) = pcwraps st \<and>
         streams (toggleAudioMute r st) = streams st \<and>
         trackEnabled (toggleAudioMute r st) =
           (\<lambda>x. if (\<exists>s ts. playStream u = Some s \<and> streams st s = Some ts \<and> x \<in> set ts) \<and> fst x = Audio
                then truthy (audioMuted u) else trackEnabled st x)"
  using assms
  by (auto simp: toggleAudioMute_def setTrackEnabledForUser_def upd_videoEl_def Let_def fun_eq_iff
      split: option.splits)

lemma track_listener_frame:
  "users (track_listener w t c st) = users st \<and> streams (track_listener w t c st) = streams st \<and>
   trackEnabled (track_listener w t c st) = trackEnabled st \<and>
   videoEls (track_listener w t c st) = videoEls st"
  by (simp add: track_listener_def Let_def)

lemma dispatch_track_frame:
  "users (dispatch_track w t st) = users st \<and> streams (dispatch_track w t st) = streams st \<and>
   trackEnabled (dispatch_track w t st) = trackEnabled st \<and>
   videoEls (dispatch_track w t st) = videoEls st"
proof -
  have "users (foldl (\<lambda>s c. track_listener w t c s) st cs) = users st \<and>
        streams (foldl (\<lambda>s c. track_listener w t c s) st cs) = streams st \<and>
        trackEnabled (foldl (\<lambda>s c. track_listener w t c s) st cs) = trackEnabled st \<and>
        videoEls (foldl (\<lambda>s c. track_listener w t c s) st cs) = videoEls st" for cs
    by (induction cs arbitrary: st) (simp_all add: track_listener_frame)
  then show ?thesis
    by (simp add: dispatch_track_def split: option.splits)
qed

lemma resume_enabled:
  assumes "c < length (calls st)" "c_stage (calls st ! c) = Resolved"
    and "users st (c_user (calls st ! c)) = Some u" "playStream u = Some s" "streams st s = Some old"
    and "t \<in> set (c_tracks (calls st ! c))"
  shows "(\<exists>ts. streams (pull_resume c st) s = Some ts \<and> t \<in> set ts) \<and>
         trackEnabled (pull_resume c st) t = (trackEnabled st t \<and> \<not> muted_flag u (fst t))"
proof -
  note P = pull_resume_proj[OF assms(1-5)]
  from P obtain new where n: "streams (pull_resume c st) s = Some (old @ new)"
    "set (c_tracks (calls st ! c)) \<subseteq> set (old @ new)" by blast
  have "t \<in> set (old @ new)" using n(2) assms(6) by blast
  with n(1) have 1: "\<exists>ts. streams (pull_resume c st) s = Some ts \<and> t \<in> set ts" by blast
  have 2: "trackEnabled (pull_resume c st) t = (trackEnabled st t \<and> \<not> muted_flag u (fst t))"
    using P[THEN conjunct1] assms(6) by simp
  from 1 2 show ?thesis by (rule conjI)
qed

lemma toggle_then_track_then_resume:
  assumes u0: "users st r = Some u" "playStream u = Some s" "streams st s = Some old"
    and w: "pcwraps st w = Some pw" "pc pw \<noteq> None" "distinct (trackListeners pw)"
    and c: "c \<in> set (trackListeners pw)" "c < length (calls st)" "c_user (calls st ! c) = r"
      "Suc (length (c_tracks (calls st ! c))) = length (c_specs (calls st ! c))"
    and t: "fst t = Video" "trackEnabled st t"
  shows "trackEnabled (pull_resume c (dispatch_track w t (toggleVideoMute r st))) t =
           truthy (videoMuted u)"
proof -
  let ?u1 = "u\<lparr>videoMuted := Some (\<not> truthy (videoMuted u))\<rparr>"
  let ?st1 = "toggleVideoMute r st"
  let ?st2 = "dispatch_track w t ?st1"
  note T = toggleVideoMute_proj[OF u0(1)]
  have t1: "users ?st1 r = Some ?u1" "calls ?st1 = calls st" "pcwraps ?st1 w = Some pw"
    "streams ?st1 s = Some old"
    using T w(1) u0(3) by simp_all
  have te1: "trackEnabled ?st1 t = (if t \<in> set old then truthy (videoMuted u) else True)"
    using T u0(2,3) t by simp
  have c1: "c < length (calls ?st1)" "completes ?st1 c"
    using c(2,4) t1(2) by (simp_all add: completes_def)
  note D = dispatch_track_listeners[OF t1(3) w(2,3), of t]
  have call2: "calls ?st2 ! c =
      (calls ?st1 ! c)\<lparr>c_tracks := c_tracks (calls ?st1 ! c) @ [t], c_stage := Resolved\<rparr>"
    using D[THEN conjunct2, THEN conjunct2, THEN conjunct1, rule_format, of c] c(1) c1 by simp
  have len2: "c < length (calls ?st2)"
    using D[THEN conjunct1] c1(1) by simp
  note F = dispatch_track_frame[of w t ?st1]
  have u2: "users ?st2 (c_user (calls ?st2 ! c)) = Some ?u1" "streams ?st2 s = Some old"
    using F t1(1,2,4) c(3) call2 by simp_all
  have st2: "c_stage (calls ?st2 ! c) = Resolved" "t \<in> set (c_tracks (calls ?st2 ! c))"
    using call2 by simp_all
  have p: "playStream ?u1 = Some s" using u0(2) by simp
  from resume_enabled[OF len2 st2(1) u2(1) p u2(2) st2(2)]
  have "trackEnabled (pull_resume c ?st2) t = (trackEnabled ?st2 t \<and> \<not> muted_flag ?u1 (fst t))"
    by blast
  also have "trackEnabled ?st2 t = trackEnabled ?st1 t" using F by simp
  finally show ?thesis
    using te1 t(1) by (auto simp: muted_flag_def truthy_def)
qed

text \<open>
  Claim C4. When a resolved subscribe call resumes, each track it collected ends up in
  the play stream of its user, and the track is enabled afterwards exactly when it was
  enabled before and the user's mute flag for the track's kind, read from the user
  object at this moment, is off. A track that arrives enabled, as the platform creates
  it, is therefore enabled exactly when the current flag is off. In particular, when
  the video mute is toggled while the call still waits, the track arrives and the call
  resumes, the appended video track is enabled exactly when the old flag was on, that
  is, when the new flag is off.
\<close>

theorem appended_track_follows_current_mute:
  "(c < length (calls st) \<and> c_stage (calls st ! c) = Resolved \<and>
    users st (c_user (calls st ! c)) = Some u \<and> playStream u = Some s \<and> streams st s = Some old \<and>
    t \<in> set (c_tracks (calls st ! c)) \<longrightarrow>
      (\<exists>ts. streams (pull_resume c st) s = Some ts \<and> t \<in> set ts) \<and>
      trackEnabled (pull_resume c st) t = (trackEnabled st t \<and> \<not> muted_flag u (fst t)) \<and>
      (trackEnabled st t \<longrightarrow> trackEnabled (pull_resume c st) t = (\<not> muted_flag u (fst t)))) \<and>
   (users st r = Some u \<and> playStream u = Some s \<and> streams st s = Some old \<and>
    pcwraps st w = Some pw \<and> pc pw \<noteq> None \<and> distinct (trackListeners pw) \<and>
    c \<in> set (trackListeners pw) \<and> c < length (calls st) \<and> c_user (calls st ! c) = r \<and>
    Suc (length (c_tracks (calls st ! c))) = length (c_specs (calls st ! c)) \<and>
    fst t = Video \<and> trackEnabled st t \<longrightarrow>
      trackEnabled (pull_resume c (dispatch_track w t (toggleVideoMute r st))) t =
        truthy (videoMuted u) \<and>
      (\<exists>u'. users (toggleVideoMute r st) r = Some u' \<and>
            muted_flag u' Video = (\<not> truthy (videoMuted u))))"
proof (intro conjI impI)
  assume a: "c < length (calls st) \<and> c_stage (calls st ! c) = Resolved \<and>
    users st (c_user (calls st ! c)) = Some u \<and> playStream u = Some s \<and> streams st s = Some old \<and>
    t \<in> set (c_tracks (calls st ! c))"
  then have R: "(\<exists>ts. streams (pull_resume c st) s = Some ts \<and> t \<in> set ts) \<and>
         trackEnabled (pull_resume c st) t = (trackEnabled st t \<and> \<not> muted_flag u (fst t))"
    by (intro resume_enabled) simp_all
  from R show "\<exists>ts. streams (pull_resume c st) s = Some ts \<and> t \<in> set ts" by (rule conjunct1)
  from R show "trackEnabled (pull_resume c st) t = (trackEnabled st t \<and> \<not> muted_flag u (fst t))"
    by (rule conjunct2)
  assume "trackEnabled st t"
  with R show "trackEnabled (pull_resume c st) t = (\<not> muted_flag u (fst t))" by simp
next
  assume b: "users st r = Some u \<and> playStream u = Some s \<and> streams st s = Some old \<and>
    pcwraps st w = Some pw \<and> pc pw \<noteq> None \<and> distinct (trackListeners pw) \<and>
    c \<in> set (trackListeners pw) \<and> c < length (calls st) \<and> c_user (calls st ! c) = r \<and>
    Suc (length (c_tracks (calls st ! c))) = length (c_specs (calls st ! c)) \<and>
    fst t = Video \<and> trackEnabled st t"
  then show "trackEnabled (pull_resume c (dispatch_track w t (toggleVideoMute r st))) t =
        truthy (videoMuted u)"
    by (intro toggle_then_track_then_resume[where u = u and s = s and old = old and pw = pw]) simp_all
  from b have "users st r = Some u" by simp
  from toggleVideoMute_proj[OF this]
  show "\<exists>u'. users (toggleVideoMute r st) r = Some u' \<and>
            muted_flag u' Video = (\<not> truthy (videoMuted u))"
    by (simp add: muted_flag_def truthy_def)
qed

theorem appended_track_follows_current_mute_witness:
  "users ex_waiting 0 = Some ex_remote_late \<and> muted_flag ex_remote_late Video = False \<and>
   c_stage (calls ex_waiting ! 0) = AwaitTracks \<and>
   trackEnabled ex_waiting (Video, 4) \<and>
   c_stage (calls (dispatch_track 1 (Video, 4) (toggleVideoMute 0 ex_waiting)) ! 0) = Resolved \<and>
   trackEnabled (pull_resume 0 (dispatch_track 1 (Video, 4) (toggleVideoMute 0 ex_waiting))) (Video, 4) = False \<and>
   streams (pull_resume 0 (dispatch_track 1 (Video, 4) (toggleVideoMute 0 ex_waiting))) 2 = Some [(Video, 4)] \<and>
   trackEnabled (pull_resume 0 (dispatch_track 1 (Video, 4) ex_waiting)) (Video, 4) = True"
  using appended_track_follows_current_mute[of 0 "dispatch_track 1 (Video, 4) (toggleVideoMute 0 ex_waiting)"
      "ex_remote_late\<lparr>videoMuted := Some True\<rparr>" 2 "[]" "(Video, 4)" 0 1 ex_wait_wrap]
    appended_track_follows_current_mute[of 0 ex_waiting ex_remote_late 2 "[]" "(Video, 4)" 0 1 ex_wait_wrap]
  by (simp add: ex_waiting_eq init_state_def dispatch_track_def track_listener_def ex_wait_wrap_def
      ex_call_def Let_def unsubscribe_def toggleVideoMute_def setTrackEnabledForUser_def
      ex_remote_late_def truthy_def muted_flag_def pull_resume_def append_track_def addTrack_def
      set_stage_def)

subsection \<open>Projections through case distinctions\<close>

lemma case_option_same: "(case x of None \<Rightarrow> c | Some y \<Rightarrow> c) = c"
  by (cases x) auto

lemma case_sum_same: "(case x of Inl a \<Rightarrow> c | Inr b \<Rightarrow> c) = c"
  by (cases x) auto

lemma case_prod_same: "(case p of (a, b) \<Rightarrow> c) = c"
  by (cases p) auto

lemmas proj_cases = case_option_same case_sum_same case_prod_same if_cancel

lemma onOpenDevices_frame:
  "remoteUsers (onOpenDevices gum offer resp st) = remoteUsers st \<and>
   users (onOpenDevices gum offer resp st) = users st \<and>
   streams (onOpenDevices gum offer resp st) = streams st \<and>
   calls (onOpenDevices gum offer resp st) = calls st \<and>
   trackEnabled (onOpenDevices gum offer resp st) = trackEnabled st"
proof (intro conjI)
  show "remoteUsers (onOpenDevices gum offer resp st) = remoteUsers st"
    by (simp add: onOpenDevices_def alert_def Let_def
        option.case_distrib[of remoteUsers] prod.case_distrib[of remoteUsers]
        sum.case_distrib[of remoteUsers] if_distrib[of remoteUsers] proj_cases
        cong: if_cong option.case_cong sum.case_cong prod.case_cong)
  show "users (onOpenDevices gum offer resp st) = users st"
    by (simp add: onOpenDevices_def alert_def Let_def
        option.case_distrib[of users] prod.case_distrib[of users]
        sum.case_distrib[of users] if_distrib[of users] proj_cases
        cong: if_cong option.case_cong sum.case_cong prod.case_cong)
  show "streams (onOpenDevices gum offer resp st) = streams st"
    by (simp add: onOpenDevices_def alert_def Let_def
        option.case_distrib[of streams] prod.case_distrib[of streams]
        sum.case_distrib[of streams] if_distrib[of streams] proj_cases
        cong: if_cong option.case_cong sum.case_cong prod.case_cong)
  show "calls (onOpenDevices gum offer resp st) = calls st"
    by (simp add: onOpenDevices_def alert_def Let_def
        option.case_distrib[of calls] prod.case_distrib[of calls]
        sum.case_distrib[of calls] if_distrib[of calls] proj_cases
        cong: if_cong option.case_cong sum.case_cong prod.case_cong)
  show "trackEnabled (onOpenDevices gum offer resp st) = trackEnabled st"
    by (simp add: onOpenDevices_def alert_def Let_def
        option.case_distrib[of trackEnabled] prod.case_distrib[of trackEnabled]
        sum.case_distrib[of trackEnabled] if_distrib[of trackEnabled] proj_cases
        cong: if_cong option.case_cong sum.case_cong prod.case_cong)
qed

lemma onOpenDevices_nextRef:
  "nextRef (onOpenDevices gum offer resp st) =
     (if wsStatus st = WsJoined \<and> sendPcWarp st = None then nextRef st + 1 else nextRef st)"
proof (cases "sendPcWarp st")
  case None
  then show ?thesis
    by (simp add: onOpenDevices_def alert_def Let_def
        option.case_distrib[of nextRef] prod.case_distrib[of nextRef]
        sum.case_distrib[of nextRef] if_distrib[of nextRef] proj_cases
        cong: if_cong option.case_cong sum.case_cong prod.case_cong)
next
  case (Some w)
  then show ?thesis
    by (simp add: onOpenDevices_def alert_def Let_def
        option.case_distrib[of nextRef] prod.case_distrib[of nextRef]
        sum.case_distrib[of nextRef] if_distrib[of nextRef] proj_cases
        cong: if_cong option.case_cong sum.case_cong prod.case_cong)
qed

lemma quiet_onOpenDevices: "quiet st (onOpenDevices gum offer resp st)"
  using onOpenDevices_frame[of gum offer resp st]
  by (simp add: quiet_def onOpenDevices_nextRef rel_option_same_core_refl rel_option_extends_refl)

subsection \<open>What a quiet step keeps\<close>

lemma quiet_key_of:
  assumes "quiet st st'"
  shows "key_of nfc st' r = key_of nfc st r"
proof -
  have "rel_option same_core (users st r) (users st' r)"
    using assms by (simp add: quiet_def)
  then show ?thesis
    by (cases "users st r"; cases "users st' r") (auto simp: key_of_def same_core_def)
qed

lemma quiet_table_keys:
  assumes q: "quiet st st'"
  shows "table_keys nfc st' = table_keys nfc st"
proof -
  have "remoteUsers st' = remoteUsers st" using q by (simp add: quiet_def)
  then show ?thesis by (simp add: table_keys_def quiet_key_of[OF q])
qed

lemma quiet_unique_ids: "quiet st st' \<Longrightarrow> unique_ids nfc st \<Longrightarrow> unique_ids nfc st'"
  by (simp add: unique_ids_def quiet_table_keys)

lemma quiet_table_wf:
  assumes q: "quiet st st'" and wf: "table_wf st"
  shows "table_wf st'"
  unfolding table_wf_def
proof
  fix r assume "r \<in> set (remoteUsers st')"
  then have r: "r \<in> set (remoteUsers st)" using q by (simp add: quiet_def)
  with wf have a: "r < nextRef st" "users st r \<noteq> None" by (auto simp: table_wf_def)
  have "rel_option same_core (users st r) (users st' r)"
    using q by (simp add: quiet_def)
  with a(2) have "users st' r \<noteq> None"
    by (cases "users st r"; cases "users st' r") auto
  moreover have "r < nextRef st'" using a(1) q by (simp add: quiet_def)
  ultimately show "r < nextRef st' \<and> users st' r \<noteq> None" by simp
qed

subsection \<open>Leaving\<close>

lemma userLeave_absent:
  "findIndex (has_userId st v) (remoteUsers st) = None \<Longrightarrow> userLeave v st = st"
  by (simp add: userLeave_def)

lemma userLeave_found:
  assumes "findIndex (has_userId st v) (remoteUsers st) = Some idx"
  shows "remoteUsers (userLeave v st) =
           take idx (remoteUsers st) @ drop (Suc idx) (remoteUsers st) \<and>
         nextRef (userLeave v st) = nextRef st \<and>
         streams (userLeave v st) = streams st \<and>
         calls (userLeave v st) = calls st \<and>
         trackEnabled (userLeave v st) = trackEnabled st \<and>
         (\<forall>q. q \<noteq> remoteUsers st ! idx \<longrightarrow> users (userLeave v st) q = users st q) \<and>
         rel_option (\<lambda>u u'. u' = u\<lparr>receivePcWrap := None, videoRef := None\<rparr>)
           (users st (remoteUsers st ! idx)) (users (userLeave v st) (remoteUsers st ! idx))"
  using assms
  by (auto simp: userLeave_def upd_videoEl_def Let_def split: option.splits)

lemma distinct_take_drop:
  assumes "distinct xs"
  shows "distinct (take i xs @ drop (Suc i) xs)"
proof -
  have "distinct (take i xs @ drop i xs)"
    using assms by simp
  then have a: "set (take i xs) \<inter> set (drop i xs) = {}"
    by (simp only: distinct_append)
  have "set (drop (Suc i) xs) \<subseteq> set (drop i xs)"
    by (rule set_drop_subset_set_drop) simp
  with a have "set (take i xs) \<inter> set (drop (Suc i) xs) = {}"
    by blast
  then show ?thesis
    using assms by simp
qed

lemma map_take_drop:
  "map f (take i xs @ drop (Suc i) xs) = take i (map f xs) @ drop (Suc i) (map f xs)"
  by (simp add: take_map drop_map)

subsection \<open>A join that the server refuses\<close>

lemma pullRemoteUser_status:
  "wsStatus (pullRemoteUser room uid specs st) = wsStatus st \<and>
   alerts (pullRemoteUser room uid specs st) = alerts st \<and>
   remoteUsers (pullRemoteUser room uid specs st) = remoteUsers st \<and>
   length (calls (pullRemoteUser room uid specs st)) = Suc (length (calls st))"
  by (simp add: pullRemoteUser_def Let_def split: option.splits prod.splits)

lemma foldl_pull_status:
  "wsStatus (foldl (\<lambda>s r. case users s r of
                     Some user \<Rightarrow>
                       if length (pushers user) > 0
                       then pullRemoteUser (roomId s) (userId user) (specs_of (pushers user)) s
                       else s
                   | None \<Rightarrow> s) st rs) = wsStatus st \<and>
   alerts (foldl (\<lambda>s r. case users s r of
                     Some user \<Rightarrow>
                       if length (pushers user) > 0
                       then pullRemoteUser (roomId s) (userId user) (specs_of (pushers user)) s
                       else s
                   | None \<Rightarrow> s) st rs) = alerts st"
  by (induction rs arbitrary: st) (simp_all add: pullRemoteUser_status split: option.splits)

lemma pull_all_status: "wsStatus (pull_all st) = wsStatus st \<and> alerts (pull_all st) = alerts st"
  unfolding pull_all_def by (rule foldl_pull_status)

text \<open>
  Claim C5. A \<open>join\<close> request that the server answers with code 1 is not treated as a
  failure: the status becomes \<open>joined\<close>, nothing is shown to the user, and every user
  of the table that has pushers is pulled. A request that fails on the channel leaves the
  status as it was and alerts.
\<close>

theorem join_refused_still_joined:
  "onJoin_response nfc (Inr \<lparr>j_code = 1, j_users = us\<rparr>) st = pull_all (st\<lparr>wsStatus := WsJoined\<rparr>) \<and>
   wsStatus (onJoin_response nfc (Inr \<lparr>j_code = 1, j_users = us\<rparr>) st) = WsJoined \<and>
   alerts (onJoin_response nfc (Inr \<lparr>j_code = 1, j_users = us\<rparr>) st) = alerts st \<and>
   onJoin_response nfc (Inl e) st = st\<lparr>alerts := alerts st @ [''Join failed'']\<rparr> \<and>
   wsStatus (run nfc [JoinClick, JoinConnected (Inr ()), JoinResponse (Inr \<lparr>j_code = 1, j_users = None\<rparr>)]
      (init_state room)) = WsJoined \<and>
   alerts (run nfc [JoinClick, JoinConnected (Inr ()), JoinResponse (Inr \<lparr>j_code = 1, j_users = None\<rparr>)]
      (init_state room)) = []"
  by (simp add: onJoin_response_def pull_all_status alert_def step_def onJoin_def
      onJoin_connected_def init_state_def)

subsection \<open>A user leaves while a subscribe call waits\<close>

lemma userLeave_wrapper:
  assumes "findIndex (has_userId st v) (remoteUsers st) = Some idx"
    and "users st (remoteUsers st ! idx) = Some u" and "receivePcWrap u = Some w"
  shows "pcwraps (userLeave v st) w = map_option close (pcwraps st w)"
  using assms
  by (auto simp: userLeave_def upd_videoEl_def Let_def split: option.splits)

lemma dispatch_after_close:
  "pcwraps st w = map_option close x \<Longrightarrow> dispatch_track w t st = st"
  by (cases x) (simp_all add: dispatch_track_def close_def)

lemma userLeave_absent_after:
  assumes found: "findIndex (has_userId st v) (remoteUsers st) = Some idx"
    and uniq: "distinct (stored_ids st)"
  shows "\<forall>r \<in> set (remoteUsers (userLeave v st)). \<not> has_userId (userLeave v st) v r"
proof
  fix r assume r: "r \<in> set (remoteUsers (userLeave v st))"
  let ?x = "remoteUsers st ! idx"
  note L = userLeave_found[OF found]
  note F = findIndex_Some[OF found]
  have idx: "idx < length (remoteUsers st)" and hx: "has_userId st v ?x"
    using F by simp_all
  have d: "distinct (remoteUsers st)"
    using uniq unfolding stored_ids_def by (simp add: distinct_map)
  have tbl: "remoteUsers (userLeave v st) = take idx (remoteUsers st) @ drop (Suc idx) (remoteUsers st)"
    using L by simp
  have "remoteUsers st = take idx (remoteUsers st) @ ?x # drop (Suc idx) (remoteUsers st)"
    using idx by (simp add: id_take_nth_drop[symmetric])
  then have "distinct (take idx (remoteUsers st) @ ?x # drop (Suc idx) (remoteUsers st))"
    using d by simp
  then have nx: "?x \<notin> set (take idx (remoteUsers st) @ drop (Suc idx) (remoteUsers st))"
    by simp
  have rin: "r \<in> set (remoteUsers st)"
    using r tbl by (auto dest: in_set_takeD in_set_dropD)
  have rx: "r \<noteq> ?x"
    using r tbl nx by auto
  have same: "users (userLeave v st) r = users st r"
    using L rx by simp
  have xin: "?x \<in> set (remoteUsers st)"
    using idx by simp
  have "map_option userId (users st r) \<noteq> map_option userId (users st ?x)"
    using uniq rin xin rx unfolding stored_ids_def by (simp add: distinct_map inj_on_def) blast
  with hx have "\<not> has_userId st v r"
    by (auto simp: has_userId_def split: option.splits)
  then show "\<not> has_userId (userLeave v st) v r"
    using same by (simp add: has_userId_def)
qed

text \<open>
  Claim C1, as amended. A \<open>userLeave\<close> notification whose id is strictly equal to a
  stored one removes that entry, and with pairwise different stored ids no entry with
  the id is left. The subscribe calls are not touched: a call that waits for its tracks
  still waits, it is not rejected. The wrapper of the user is closed and taken from the
  user object, so that a later track event on it changes nothing and the waiting call
  does not resolve either.
\<close>

theorem leave_removes_entry_call_stays_pending:
  assumes found: "findIndex (has_userId st v) (remoteUsers st) = Some idx"
    and uniq: "distinct (stored_ids st)"
    and user: "users st (remoteUsers st ! idx) = Some u"
    and wrap: "receivePcWrap u = Some w"
  shows "(\<forall>r \<in> set (remoteUsers (onNotification nfc now (UserLeave v) st)).
            \<not> has_userId (onNotification nfc now (UserLeave v) st) v r) \<and>
         calls (onNotification nfc now (UserLeave v) st) = calls st \<and>
         pcwraps (onNotification nfc now (UserLeave v) st) w = map_option close (pcwraps st w) \<and>
         users (onNotification nfc now (UserLeave v) st) (remoteUsers st ! idx) =
           Some (u\<lparr>receivePcWrap := None, videoRef := None\<rparr>) \<and>
         dispatch_track w t (onNotification nfc now (UserLeave v) st) =
           onNotification nfc now (UserLeave v) st \<and>
         calls (dispatch_track w t (onNotification nfc now (UserLeave v) st)) = calls st"
proof -
  have eq: "onNotification nfc now (UserLeave v) st = userLeave v st"
    by (simp add: onNotification_def)
  note L = userLeave_found[OF found]
  have a: "\<forall>r \<in> set (remoteUsers (userLeave v st)). \<not> has_userId (userLeave v st) v r"
    by (rule userLeave_absent_after[OF found uniq])
  have b: "calls (userLeave v st) = calls st"
    using L by simp
  have c: "pcwraps (userLeave v st) w = map_option close (pcwraps st w)"
    by (rule userLeave_wrapper[OF found user wrap])
  have d: "users (userLeave v st) (remoteUsers st ! idx) = Some (u\<lparr>receivePcWrap := None, videoRef := None\<rparr>)"
    using L user by (cases "users (userLeave v st) (remoteUsers st ! idx)") simp_all
  have e: "dispatch_track w t (userLeave v st) = userLeave v st"
    by (rule dispatch_after_close[OF c])
  show ?thesis
    unfolding eq using a b c d e by simp
qed

lemma ex_left_eq:
  "ex_left = (init_state ''hn64gxaw'')
      \<lparr>wsStatus := WsJoined, peer := Some False, remoteUsers := [],
       users := (\<lambda>_. None)(0 := Some (ex_remote_late\<lparr>receivePcWrap := None\<rparr>)),
       pcwraps := (\<lambda>_. None)(1 := Some (close ex_wait_wrap)), streams := (\<lambda>_. None)(2 := Some []),
       nextRef := 3, calls := [ex_call]\<rparr>"
  by (simp add: ex_left_def ex_waiting_eq step_def onNotification_def userLeave_def has_userId_def
      init_state_def ex_remote_late_def Let_def)

text \<open>
  The claim as stated fails. User 6725 leaves while the call for its video waits for the
  track: the user is gone from the table, and the call still waits. It is not rejected,
  and neither a track event on the closed wrapper nor the resumption changes that.
\<close>

theorem leave_pending_call_counterexample:
  "remoteUsers ex_waiting = [0] \<and>
   c_user (calls ex_waiting ! 0) = 0 \<and> c_stage (calls ex_waiting ! 0) = AwaitTracks \<and>
   remoteUsers ex_left = [] \<and>
   c_stage (calls ex_left ! 0) = AwaitTracks \<and>
   \<not> is_rejected (c_stage (calls ex_left ! 0)) \<and>
   \<not> is_rejected (c_stage (calls (run (\<lambda>s. s) [TrackEvent 1 (Video, 4), Resume 0] ex_left) ! 0))"
  by (simp add: ex_left_eq ex_waiting_eq init_state_def ex_call_def is_rejected_def step_def
      dispatch_track_def close_def ex_wait_wrap_def pull_resume_def)

theorem leave_removes_entry_call_stays_pending_witness:
  "findIndex (has_userId ex_waiting (JStr ''6725'')) (remoteUsers ex_waiting) = Some 0 \<and>
   distinct (stored_ids ex_waiting) \<and>
   users ex_waiting (remoteUsers ex_waiting ! 0) = Some ex_remote_late \<and>
   receivePcWrap ex_remote_late = Some 1 \<and>
   remoteUsers (onNotification (\<lambda>s. s) 0 (UserLeave (JStr ''6725'')) ex_waiting) = [] \<and>
   calls (onNotification (\<lambda>s. s) 0 (UserLeave (JStr ''6725'')) ex_waiting) = [ex_call] \<and>
   pcwraps (onNotification (\<lambda>s. s) 0 (UserLeave (JStr ''6725'')) ex_waiting) 1 = Some (close ex_wait_wrap) \<and>
   calls (dispatch_track 1 (Video, 4) (onNotification (\<lambda>s. s) 0 (UserLeave (JStr ''6725'')) ex_waiting)) =
     [ex_call]"
  using leave_removes_entry_call_stays_pending[of ex_waiting "JStr ''6725''" 0 ex_remote_late 1
          "\<lambda>s. s" 0 "(Video, 4)"]
  by (simp add: ex_waiting_eq init_state_def has_userId_def stored_ids_def ex_remote_late_def
      onNotification_def userLeave_def Let_def)

subsection \<open>Merging the pushers of a payload\<close>

lemma addTransceivers_loop_props:
  "extends m (snd (addTransceivers_loop specs (p, m))) \<and>
   extends (transceivers p) (transceivers (fst (addTransceivers_loop specs (p, m)))) \<and>
   set (map fst (snd (addTransceivers_loop specs (p, m)))) = set (map fst m) \<union> set (map pusher_id specs) \<and>
   length (transceivers (fst (addTransceivers_loop specs (p, m)))) + length m =
     length (transceivers p) + length (snd (addTransceivers_loop specs (p, m))) \<and>
   (distinct (map fst m) \<longrightarrow> distinct (map fst (snd (addTransceivers_loop specs (p, m)))))"
proof (induction specs arbitrary: p m)
  case Nil
  show ?case by (simp add: extends_def)
next
  case (Cons sp specs)
  show ?case
  proof (cases "pusher_id sp \<in> set (map fst m)")
    case True
    with Cons.IH[where p=p and m=m] show ?thesis by auto
  next
    case False
    let ?p = "pc_addTransceiver (spec_type sp) p"
    let ?m = "m @ [(pusher_id sp, [])]"
    note IH = Cons.IH[where p="?p" and m="?m"]
    have e1: "extends m (snd (addTransceivers_loop specs (?p, ?m)))"
      using IH by (auto simp: extends_def)
    have e2: "extends (transceivers p) (transceivers (fst (addTransceivers_loop specs (?p, ?m))))"
      using IH by (auto simp: extends_def pc_addTransceiver_def)
    have e3: "set (map fst (snd (addTransceivers_loop specs (?p, ?m)))) =
                set (map fst m) \<union> set (map pusher_id (sp # specs))"
      using IH by auto
    have e4: "length (transceivers (fst (addTransceivers_loop specs (?p, ?m)))) + length m =
                length (transceivers p) + length (snd (addTransceivers_loop specs (?p, ?m)))"
      using IH by (simp add: pc_addTransceiver_def)
    have e5: "distinct (map fst m) \<longrightarrow> distinct (map fst (snd (addTransceivers_loop specs (?p, ?m))))"
      using IH False by simp
    show ?thesis
      using False e1 e2 e3 e4 e5 by simp
  qed
qed

lemma addTransceivers_recvonly:
  assumes "direction pw = RecvOnly" and "pc pw = Some p"
  shows "addTransceivers gt specs pw =
           Inr (pw\<lparr>pc := Some (fst (addTransceivers_loop specs (p, recvMap pw))),
                   recvMap := snd (addTransceivers_loop specs (p, recvMap pw))\<rparr>)"
  using assms
  by (simp add: addTransceivers_def initPeerConnection_def Let_def split: prod.splits)



lemma upsert_existing_wrapper:
  assumes found: "find (same_id nfc st (p_userId user)) (remoteUsers st) = Some r"
    and u: "users st r = Some u" and w: "receivePcWrap u = Some w"
    and pw: "pcwraps st w = Some pw" and dir: "direction pw = RecvOnly" and p: "pc pw = Some p"
  shows "pcwraps (snd (upsertRemoteUser nfc user st)) w =
           Some (pw\<lparr>pc := Some (fst (addTransceivers_loop
                      (specs_of (filter (\<lambda>p. pusherId p \<notin> set (map pusherId (pushers u)))
                         (case p_pushers user of Some ps \<Rightarrow> ps | None \<Rightarrow> [])))
                      (p, recvMap pw))),
                    recvMap := snd (addTransceivers_loop
                      (specs_of (filter (\<lambda>p. pusherId p \<notin> set (map pusherId (pushers u)))
                         (case p_pushers user of Some ps \<Rightarrow> ps | None \<Rightarrow> [])))
                      (p, recvMap pw))\<rparr>)"
proof -
  let ?ps = "case p_pushers user of Some ps \<Rightarrow> ps | None \<Rightarrow> []"
  let ?added = "filter (\<lambda>p. pusherId p \<notin> set (map pusherId (pushers u))) ?ps"
  show ?thesis
  proof (cases "length ?ps > 0 \<and> length (specs_of ?added) > 0")
    case True
    then show ?thesis
      using assms addTransceivers_recvonly[OF dir p, of "captureTracks st" "specs_of ?added"]
      by (simp add: upsertRemoteUser_def Let_def)
  next
    case False
    then have "specs_of ?added = []"
      by (auto simp: specs_of_def)
    then show ?thesis
      using assms False
      by (simp add: upsertRemoteUser_def Let_def)
  qed
qed






subsection \<open>Steps that keep the wrappers and the calls\<close>

lemma wrap_same_refl: "wrap_same pw pw"
  by (simp add: wrap_same_def)

lemma wrap_same_trans: "wrap_same a b \<Longrightarrow> wrap_same b c \<Longrightarrow> wrap_same a c"
  by (simp add: wrap_same_def)

lemma call_same_refl: "call_same c c"
  by (simp add: call_same_def)

lemma call_same_trans: "call_same a b \<Longrightarrow> call_same b c \<Longrightarrow> call_same a c"
  by (auto simp: call_same_def)

lemma rel_option_wrap_same_refl: "rel_option wrap_same x x"
  by (cases x) (simp_all add: wrap_same_refl)

lemma list_all2_call_same_refl: "list_all2 call_same xs xs"
  by (simp add: list_all2_refl call_same_refl)

lemma kept_refl: "kept st st"
  by (simp add: kept_def rel_option_wrap_same_refl list_all2_call_same_refl)

lemma kept_trans:
  assumes a: "kept st st'" and b: "kept st' st''"
  shows "kept st st''"
proof -
  have w: "rel_option wrap_same (pcwraps st w) (pcwraps st'' w)" for w
  proof -
    have 1: "rel_option wrap_same (pcwraps st w) (pcwraps st' w)" using a by (simp add: kept_def)
    have 2: "rel_option wrap_same (pcwraps st' w) (pcwraps st'' w)" using b by (simp add: kept_def)
    show ?thesis
      by (rule rel_option_trans[OF _ 1 2]) (rule wrap_same_trans)
  qed
  have 1: "list_all2 call_same (calls st) (calls st')" using a by (simp add: kept_def)
  have 2: "list_all2 call_same (calls st') (calls st'')" using b by (simp add: kept_def)
  have c: "list_all2 call_same (calls st) (calls st'')"
    by (rule list_all2_trans[OF _ 1 2]) (rule call_same_trans)
  have s: "sendPcWarp st'' = sendPcWarp st" using a b by (simp add: kept_def)
  show ?thesis
    using w c s by (simp add: kept_def)
qed

lemma kept_same:
  "sendPcWarp st' = sendPcWarp st \<Longrightarrow> pcwraps st' = pcwraps st \<Longrightarrow> calls st' = calls st \<Longrightarrow> kept st st'"
  by (simp add: kept_def rel_option_wrap_same_refl list_all2_call_same_refl)

lemma call_same_upd:
  assumes "call_same (xs ! c) y"
  shows "list_all2 call_same xs (xs[c := y])"
proof (cases "c < length xs")
  case True
  with assms show ?thesis
    by (auto simp: list_all2_conv_all_nth nth_list_update call_same_refl)
next
  case False
  then have "xs[c := y] = xs" by (simp add: list_update_beyond not_less)
  then show ?thesis by (simp add: list_all2_call_same_refl)
qed

lemma kept_alert: "kept st (alert m st)"
  by (rule kept_same) (simp_all add: alert_def)

lemma kept_upd_videoEl: "kept st (upd_videoEl v f st)"
  by (rule kept_same) (simp_all add: upd_videoEl_def split: option.splits)

lemma kept_set_stage: "\<not> offering sg \<Longrightarrow> kept st (set_stage c sg st)"
  by (simp add: kept_def set_stage_def rel_option_wrap_same_refl list_all2_call_same_refl
      call_same_upd call_same_def)

lemma kept_set_stage_pull:
  "c < length (calls st) \<Longrightarrow> offering (c_stage (calls st ! c)) \<Longrightarrow> kept st (set_stage c AwaitPull st)"
  by (simp add: kept_def set_stage_def rel_option_wrap_same_refl call_same_upd call_same_def)

lemma kept_wrap_upd:
  "pcwraps st w = Some pw \<Longrightarrow> wrap_same pw pw' \<Longrightarrow> kept st (st\<lparr>pcwraps := (pcwraps st)(w := Some pw')\<rparr>)"
  by (simp add: kept_def rel_option_wrap_same_refl list_all2_call_same_refl)

lemma createOffer_finish_same: "wrap_same pw (snd (createOffer_finish offer pw))"
  by (simp add: createOffer_finish_def wrap_same_def split: sum.splits option.splits)

lemma setRemoteDescription_same: "setRemoteDescription a pw = Inr pw' \<Longrightarrow> wrap_same pw pw'"
  by (auto simp: setRemoteDescription_def wrap_same_def split: option.splits)

lemma kept_pull_offerResult: "kept st (pull_offerResult c offer st)"
proof (cases "c < length (calls st) \<and> c_stage (calls st ! c) = AwaitOffer")
  case False
  then show ?thesis by (auto simp: pull_offerResult_def kept_refl)
next
  case True
  let ?w = "c_wrap (calls st ! c)"
  show ?thesis
  proof (cases "pcwraps st ?w")
    case None
    with True show ?thesis
      by (simp add: pull_offerResult_def Let_def kept_set_stage offering_def)
  next
    case (Some pw)
    obtain res pw1 where f: "createOffer_finish offer pw = (res, pw1)"
      by (cases "createOffer_finish offer pw")
    let ?st1 = "st\<lparr>pcwraps := (pcwraps st)(?w := Some pw1)\<rparr>"
    have k1: "kept st ?st1"
      using createOffer_finish_same[of pw offer] f by (simp add: kept_wrap_upd[OF Some])
    have k2: "kept ?st1 (set_stage c sg ?st1)" if "\<not> offering sg" for sg
      by (rule kept_set_stage[OF that])
    have k3: "kept ?st1 (set_stage c AwaitPull ?st1)"
      by (rule kept_set_stage_pull) (use True in \<open>simp_all add: offering_def\<close>)
    have r: "kept st (set_stage c sg ?st1)" if "\<not> offering sg" for sg
      by (rule kept_trans[OF k1 k2[OF that]])
    have r3: "kept st (set_stage c AwaitPull ?st1)"
      by (rule kept_trans[OF k1 k3])
    show ?thesis
      using True Some f r r3
      by (cases res) (simp_all add: pull_offerResult_def Let_def offering_def split: option.splits)
  qed
qed

lemma kept_pull_response: "kept st (pull_response c resp st)"
proof -
  have r: "kept st (set_stage c (Rejected e) st)" for e
    by (rule kept_set_stage) (simp add: offering_def)
  have u: "kept st (st\<lparr>pcwraps := (pcwraps st)(w := Some (on_track c pw1)),
                        calls := (calls st)[c := (calls st ! c)\<lparr>c_wrap := w, c_tracks := [], c_stage := AwaitTracks\<rparr>]\<rparr>)"
    if "pcwraps st w = Some pw" "setRemoteDescription a pw = Inr pw1" for w pw a pw1
  proof -
    have "wrap_same pw (on_track c pw1)"
      using setRemoteDescription_same[OF that(2)] by (simp add: wrap_same_def on_track_def)
    then show ?thesis
      using that(1)
      by (simp add: kept_def rel_option_wrap_same_refl call_same_upd call_same_def offering_def)
  qed
  show ?thesis
    using r u
    by (simp add: pull_response_def kept_refl split: sum.splits option.splits)
qed

lemma kept_track_listener: "kept st (track_listener w t c st)"
proof -
  have "rel_option wrap_same (pcwraps st x)
          ((case pcwraps st w of Some pw \<Rightarrow> (pcwraps st)(w := Some (unsubscribe c pw)) | None \<Rightarrow> pcwraps st) x)" for x
    by (cases "pcwraps st w")
      (simp_all add: rel_option_wrap_same_refl wrap_same_def unsubscribe_def)
  then show ?thesis
    by (simp add: track_listener_def Let_def kept_def rel_option_wrap_same_refl
        list_all2_call_same_refl call_same_upd call_same_def offering_def)
qed

lemma kept_foldl:
  assumes "\<And>s x. kept s (f s x)"
  shows "kept st (foldl f st xs)"
proof (induction xs arbitrary: st)
  case Nil
  show ?case by (simp add: kept_refl)
next
  case (Cons x xs)
  have "kept st (f st x)" by (rule assms)
  moreover have "kept (f st x) (foldl f (f st x) xs)" by (rule Cons.IH)
  ultimately show ?case by (simp add: kept_trans)
qed

lemma kept_dispatch_track: "kept st (dispatch_track w t st)"
  unfolding dispatch_track_def
  by (auto simp: kept_refl kept_track_listener intro!: kept_foldl split: option.splits)

lemma kept_addTrack: "kept st (addTrack s t st)"
  by (rule kept_same) (simp_all add: addTrack_def split: option.splits)

lemma append_track_frame:
  "sendPcWarp (snd (append_track r t st)) = sendPcWarp st \<and>
   pcwraps (snd (append_track r t st)) = pcwraps st \<and>
   calls (snd (append_track r t st)) = calls st"
  by (simp add: append_track_def addTrack_def Let_def split: option.splits)

lemma append_tracks_frame:
  "sendPcWarp (snd (append_tracks r ts st)) = sendPcWarp st \<and>
   pcwraps (snd (append_tracks r ts st)) = pcwraps st \<and>
   calls (snd (append_tracks r ts st)) = calls st"
proof (induction ts arbitrary: st)
  case Nil
  show ?case by simp
next
  case (Cons t ts)
  obtain e st1 where a: "append_track r t st = (e, st1)" by (cases "append_track r t st")
  have f: "sendPcWarp st1 = sendPcWarp st \<and> pcwraps st1 = pcwraps st \<and> calls st1 = calls st"
    using append_track_frame[of r t st] a by simp
  show ?case
  proof (cases e)
    case None
    with a f Cons.IH[of st1] show ?thesis by simp
  next
    case (Some x)
    with a f show ?thesis by simp
  qed
qed

lemma kept_pull_resume: "kept st (pull_resume c st)"
proof -
  obtain e st1 where a: "append_tracks (c_user (calls st ! c)) (c_tracks (calls st ! c)) st = (e, st1)"
    by (cases "append_tracks (c_user (calls st ! c)) (c_tracks (calls st ! c)) st")
  have k1: "kept st st1"
    using append_tracks_frame[of "c_user (calls st ! c)" "c_tracks (calls st ! c)" st] a
    by (simp add: kept_same)
  have k2: "kept st (set_stage c sg st1)" if "\<not> offering sg" for sg
    by (rule kept_trans[OF k1 kept_set_stage[OF that]])
  have k3: "kept st (set_stage c sg (upd_videoEl v f st1))" if "\<not> offering sg" for sg v f
    by (rule kept_trans[OF k1 kept_trans[OF kept_upd_videoEl kept_set_stage[OF that]]])
  show ?thesis
    using a k2 k3
    by (auto simp: pull_resume_def Let_def kept_refl offering_def split: option.splits)
qed

lemma kept_setTrackEnabledForUser: "kept st (setTrackEnabledForUser r k en st)"
  by (rule kept_same)
    (simp_all add: setTrackEnabledForUser_def upd_videoEl_def Let_def split: option.splits)

lemma kept_toggleAudioMute: "kept st (toggleAudioMute r st)"
  by (rule kept_same)
    (simp_all add: toggleAudioMute_def setTrackEnabledForUser_def upd_videoEl_def Let_def split: option.splits)

lemma kept_toggleVideoMute: "kept st (toggleVideoMute r st)"
  by (rule kept_same)
    (simp_all add: toggleVideoMute_def setTrackEnabledForUser_def upd_videoEl_def Let_def split: option.splits)

lemma kept_setVideoRef: "kept st (setVideoRef r v st)"
  by (rule kept_same)
    (simp_all add: setVideoRef_def upd_videoEl_def Let_def split: option.splits)

lemma kept_set_user_state: "kept st (set_user_state v cs st)"
  by (rule kept_same) (simp_all add: set_user_state_def Let_def split: option.splits)

lemma kept_onJoin: "kept st (onJoin st)"
  by (rule kept_same) (simp_all add: onJoin_def alert_def split: option.splits)

lemma kept_onJoin_connected: "kept st (onJoin_connected res st)"
  by (rule kept_same) (simp_all add: onJoin_connected_def alert_def Let_def split: option.splits sum.splits)

subsection \<open>The invariant under the steps that keep the wrappers and the calls\<close>

lemma quiet_users:
  assumes q: "quiet st st'" and u: "users st r = Some u"
  shows "\<exists>u'. users st' r = Some u' \<and> same_core u u'"
proof -
  have "rel_option same_core (users st r) (users st' r)" using q by (simp add: quiet_def)
  with u show ?thesis by (cases "users st' r") simp_all
qed

lemma kept_wraps:
  assumes k: "kept st st'" and w: "pcwraps st w = Some pw"
  shows "\<exists>pw'. pcwraps st' w = Some pw' \<and> wrap_same pw pw'"
proof -
  have "rel_option wrap_same (pcwraps st w) (pcwraps st' w)" using k by (simp add: kept_def)
  with w show ?thesis by (cases "pcwraps st' w") simp_all
qed

lemma quiet_streams:
  assumes q: "quiet st st'" and s: "streams st s \<noteq> None"
  shows "streams st' s \<noteq> None"
proof -
  have "rel_option extends (streams st s) (streams st' s)" using q by (simp add: quiet_def)
  with s show ?thesis by (cases "streams st s"; cases "streams st' s") simp_all
qed

lemma slots_ok_kept:
  assumes q: "quiet st st'" and k: "kept st st'" and c: "same_core u u'" and s: "slots_ok st u"
  shows "slots_ok st' u'"
proof (cases "receivePcWrap u")
  case None
  with c s show ?thesis by (simp add: slots_ok_def same_core_def)
next
  case (Some w)
  with s obtain pw where pw: "pcwraps st w = Some pw"
    by (auto simp: slots_ok_def split: option.splits)
  from kept_wraps[OF k pw] obtain pw' where pw': "pcwraps st' w = Some pw'" "wrap_same pw pw'"
    by blast
  have n: "nextRef st \<le> nextRef st'" using q by (simp add: quiet_def)
  show ?thesis
    using s c Some pw pw' n
    by (auto simp: slots_ok_def same_core_def wrap_same_def split: option.splits)
qed

lemma stream_ok_kept:
  assumes q: "quiet st st'" and c: "same_core u u'" and s: "stream_ok st u"
  shows "stream_ok st' u'"
proof (cases "playStream u")
  case None
  with c s show ?thesis by (simp add: stream_ok_def same_core_def)
next
  case (Some x)
  with s have "streams st x \<noteq> None" by (simp add: stream_ok_def)
  then have "streams st' x \<noteq> None" by (rule quiet_streams[OF q])
  moreover have "nextRef st \<le> nextRef st'" using q by (simp add: quiet_def)
  ultimately show ?thesis
    using s c Some by (auto simp: stream_ok_def same_core_def)
qed

lemma reserved_kept:
  assumes n: "nextRef st \<le> nextRef st'" and k: "kept st st'" and r: "reserved st c"
    and c: "c_wrap c' = c_wrap c" "c_specs c' = c_specs c"
  shows "reserved st' c'"
proof -
  from r obtain pw where pw: "pcwraps st (c_wrap c) = Some pw"
    by (auto simp: reserved_def split: option.splits)
  from kept_wraps[OF k pw] obtain pw' where pw': "pcwraps st' (c_wrap c) = Some pw'" "wrap_same pw pw'"
    by blast
  show ?thesis
    using r c n pw pw'
    by (auto simp: reserved_def wrap_same_def split: option.splits)
qed

lemma calm_inv:
  assumes q: "quiet st st'" and k: "kept st st'" and i: "inv nfc st"
  shows "inv nfc st'"
proof -
  have tbl: "remoteUsers st' = remoteUsers st" and n: "nextRef st \<le> nextRef st'"
    using q by (simp_all add: quiet_def)
  have 1: "table_wf st'" using quiet_table_wf[OF q] i by (simp add: inv_def)
  have 2: "distinct (remoteUsers st')" using i tbl by (simp add: inv_def)
  have 3: "unique_ids nfc st'" using quiet_unique_ids[OF q] i by (simp add: inv_def)
  have 4: "users_ok nfc st'"
    unfolding users_ok_def
  proof
    fix r assume "r \<in> set (remoteUsers st')"
    then have r: "r \<in> set (remoteUsers st)" using tbl by simp
    with i obtain u where u: "users st r = Some u"
      and ok: "normalizeId nfc (JStr (userId u)) = userId u" "slots_ok st u" "stream_ok st u"
      by (auto simp: inv_def users_ok_def split: option.splits)
    from quiet_users[OF q u] obtain u' where u': "users st' r = Some u'" "same_core u u'"
      by blast
    have "slots_ok st' u'" by (rule slots_ok_kept[OF q k u'(2) ok(2)])
    moreover have "stream_ok st' u'" by (rule stream_ok_kept[OF q u'(2) ok(3)])
    moreover have "normalizeId nfc (JStr (userId u')) = userId u'"
      using ok(1) u'(2) by (simp add: same_core_def)
    ultimately show "case users st' r of None \<Rightarrow> False
        | Some u \<Rightarrow> normalizeId nfc (JStr (userId u)) = userId u \<and> slots_ok st' u \<and> stream_ok st' u"
      using u' by simp
  qed
  have 5: "wrappers_apart st'"
    unfolding wrappers_apart_def
  proof (intro ballI impI)
    fix r r' assume a: "r \<in> set (remoteUsers st')" "r' \<in> set (remoteUsers st')" "r \<noteq> r'"
    have c1: "rel_option same_core (users st r) (users st' r)"
      and c2: "rel_option same_core (users st r') (users st' r')"
      using q by (simp_all add: quiet_def)
    have "case (users st r, users st r') of
            (Some u, Some u') \<Rightarrow> receivePcWrap u = None \<or> receivePcWrap u \<noteq> receivePcWrap u'
          | _ \<Rightarrow> True"
      using i a tbl by (simp add: inv_def wrappers_apart_def)
    with c1 c2 show "case (users st' r, users st' r') of
            (Some u, Some u') \<Rightarrow> receivePcWrap u = None \<or> receivePcWrap u \<noteq> receivePcWrap u'
          | _ \<Rightarrow> True"
      by (cases "users st r"; cases "users st' r"; cases "users st r'"; cases "users st' r'")
        (auto simp: same_core_def)
  qed
  have 6: "send_ok st'"
  proof (cases "sendPcWarp st")
    case None
    then show ?thesis using k by (simp add: send_ok_def kept_def)
  next
    case (Some w)
    with i obtain pw where pw: "pcwraps st w = Some pw" "direction pw = SendOnly" "w < nextRef st"
      by (auto simp: inv_def send_ok_def split: option.splits)
    from kept_wraps[OF k pw(1)] obtain pw' where "pcwraps st' w = Some pw'" "wrap_same pw pw'"
      by blast
    then show ?thesis
      using Some pw n k by (simp add: send_ok_def kept_def wrap_same_def)
  qed
  have 7: "calls_ok st'"
    unfolding calls_ok_def
  proof (intro ballI impI)
    fix c' assume c': "c' \<in> set (calls st')" "offering (c_stage c')"
    have l: "list_all2 call_same (calls st) (calls st')" using k by (simp add: kept_def)
    from c'(1) obtain j where j: "j < length (calls st')" "calls st' ! j = c'"
      by (auto simp: in_set_conv_nth)
    from l j have cs: "call_same (calls st ! j) c'" and jl: "j < length (calls st)"
      by (auto simp: list_all2_conv_all_nth)
    from cs c'(2) have o: "offering (c_stage (calls st ! j))"
      and e: "c_wrap c' = c_wrap (calls st ! j)" "c_specs c' = c_specs (calls st ! j)"
      by (simp_all add: call_same_def)
    have "reserved st (calls st ! j)"
      using i jl o by (simp add: inv_def calls_ok_def)
    then show "reserved st' c'"
      by (rule reserved_kept[OF n k _ e])
  qed
  show ?thesis
    using 1 2 3 4 5 6 7 by (simp add: inv_def)
qed

subsection \<open>The invariant under a subscribe call\<close>

lemma pull_no_user:
  "find (has_userId st (JStr uid)) (remoteUsers st) = None \<Longrightarrow>
   pullRemoteUser room uid specs st =
     st\<lparr>calls := calls st @ [\<lparr>c_user = 0, c_wrap = 0, c_roomId = room, c_targetUserId = uid,
          c_specs = specs, c_tracks = [], c_stage = Rejected (UserNotFound uid)\<rparr>]\<rparr>"
  by (simp add: pullRemoteUser_def)

lemma pull_no_wrapper:
  "find (has_userId st (JStr uid)) (remoteUsers st) = Some r \<Longrightarrow> users st r = Some u \<Longrightarrow>
   receivePcWrap u = None \<Longrightarrow>
   pullRemoteUser room uid specs st =
     st\<lparr>calls := calls st @ [\<lparr>c_user = r, c_wrap = 0, c_roomId = room, c_targetUserId = uid,
          c_specs = specs, c_tracks = [], c_stage = Rejected (UserNotFound uid)\<rparr>]\<rparr>"
  by (simp add: pullRemoteUser_def)

lemma pull_wrapper:
  assumes "find (has_userId st (JStr uid)) (remoteUsers st) = Some r" and "users st r = Some u"
    and "receivePcWrap u = Some w" and "pcwraps st w = Some pw"
    and "direction pw = RecvOnly" and "pc pw = Some p"
  shows "pullRemoteUser room uid specs st =
     st\<lparr>calls := calls st @ [\<lparr>c_user = r, c_wrap = w, c_roomId = room, c_targetUserId = uid,
          c_specs = specs, c_tracks = [],
          c_stage = (if transceivers p = [] then Rejected NoTransceivers else AwaitOffer)\<rparr>]\<rparr>"
proof -
  have "(pcwraps st)(w := Some pw) = pcwraps st"
    using assms(4) by (simp add: fun_upd_idem)
  then show ?thesis
    using assms
    by (simp add: pullRemoteUser_def createOffer_prepare_def initPeerConnection_def Let_def)
qed

lemma inv_add_call:
  assumes i: "inv nfc st" and c: "offering (c_stage call) \<longrightarrow> reserved st call"
  shows "inv nfc (st\<lparr>calls := calls st @ [call]\<rparr>)"
proof -
  let ?st = "st\<lparr>calls := calls st @ [call]\<rparr>"
  have r: "reserved ?st x = reserved st x" for x
    by (simp add: reserved_def cong: option.case_cong)
  have s: "slots_ok ?st x = slots_ok st x" "stream_ok ?st x = stream_ok st x" for x
    by (simp_all add: slots_ok_def stream_ok_def cong: option.case_cong)
  have "table_wf ?st" using i by (simp add: inv_def table_wf_def)
  moreover have "key_of nfc ?st = key_of nfc st"
    by (rule ext) (simp add: key_of_def)
  then have "unique_ids nfc ?st" using i by (simp add: inv_def unique_ids_def table_keys_def)
  moreover have "users_ok nfc ?st" using i by (simp add: inv_def users_ok_def s cong: option.case_cong)
  moreover have "wrappers_apart ?st" using i by (simp add: inv_def wrappers_apart_def)
  moreover have "send_ok ?st" using i by (simp add: inv_def send_ok_def cong: option.case_cong)
  moreover have "calls_ok ?st" using i c by (auto simp: inv_def calls_ok_def r)
  ultimately show ?thesis using i by (simp add: inv_def)
qed

lemma raw_ids_unique:
  assumes i: "inv nfc st" and r: "r \<in> set (remoteUsers st)" "r' \<in> set (remoteUsers st)"
    and u: "users st r = Some u" "users st r' = Some u'" and e: "userId u = userId u'"
  shows "r = r'"
proof -
  have d: "distinct (map (key_of nfc st) (remoteUsers st))"
    using i by (simp add: inv_def unique_ids_def table_keys_def)
  have "key_of nfc st r = key_of nfc st r'"
    using u e by (simp add: key_of_def)
  with d r show ?thesis
    by (auto simp: distinct_map inj_on_def)
qed

lemma pull_inv:
  assumes i: "inv nfc st" and r: "r \<in> set (remoteUsers st)" and u: "users st r = Some u"
    and ps: "pushers u \<noteq> []"
  shows "inv nfc (pullRemoteUser room (userId u) (specs_of (pushers u)) st)"
proof -
  have h: "has_userId st (JStr (userId u)) r"
    using u by (simp add: has_userId_def)
  obtain r' where f: "find (has_userId st (JStr (userId u))) (remoteUsers st) = Some r'"
    using r h by (cases "find (has_userId st (JStr (userId u))) (remoteUsers st)")
      (auto dest: find_None_D)
  from find_Some_D[OF f] have r': "r' \<in> set (remoteUsers st)" "has_userId st (JStr (userId u)) r'"
    by simp_all
  then obtain u' where u': "users st r' = Some u'" "userId u' = userId u"
    by (auto simp: has_userId_def split: option.splits)
  have "r = r'"
    by (rule raw_ids_unique[OF i r r'(1) u u'(1)]) (simp add: u'(2))
  with f have f: "find (has_userId st (JStr (userId u))) (remoteUsers st) = Some r" by simp
  have ok: "slots_ok st u"
    using i r u by (auto simp: inv_def users_ok_def)
  with ps obtain w pw p where w: "receivePcWrap u = Some w" "w < nextRef st" "pcwraps st w = Some pw"
    "direction pw = RecvOnly" "pc pw = Some p" "length (transceivers p) = length (recvMap pw)"
    "set (map pusherId (pushers u)) \<subseteq> set (map fst (recvMap pw))"
    by (auto simp: slots_ok_def split: option.splits)
  let ?call = "\<lparr>c_user = r, c_wrap = w, c_roomId = room, c_targetUserId = userId u,
          c_specs = specs_of (pushers u), c_tracks = [],
          c_stage = (if transceivers p = [] then Rejected NoTransceivers else AwaitOffer)\<rparr>"
  have eq: "pullRemoteUser room (userId u) (specs_of (pushers u)) st = st\<lparr>calls := calls st @ [?call]\<rparr>"
    by (rule pull_wrapper[OF f u w(1) w(3) w(4) w(5)])
  have ids: "map pusher_id (specs_of (pushers u)) = map pusherId (pushers u)"
    by (simp add: specs_of_def comp_def)
  have "offering (c_stage ?call) \<longrightarrow> reserved st ?call"
    using w ps ids by (auto simp: reserved_def offering_def specs_of_def)
  then show ?thesis
    unfolding eq by (rule inv_add_call[OF i])
qed

lemma pull_table:
  "remoteUsers (pullRemoteUser room uid specs st) = remoteUsers st \<and>
   users (pullRemoteUser room uid specs st) = users st \<and>
   roomId (pullRemoteUser room uid specs st) = roomId st"
  by (simp add: pullRemoteUser_def Let_def split: option.splits prod.splits)

subsection \<open>The invariant under a leave\<close>

lemma in_take_drop:
  assumes d: "distinct xs" and i: "i < length xs" and q: "q \<in> set (take i xs @ drop (Suc i) xs)"
  shows "q \<in> set xs \<and> q \<noteq> xs ! i"
proof -
  have "xs = take i xs @ xs ! i # drop (Suc i) xs"
    using i by (simp add: id_take_nth_drop[symmetric])
  then have "distinct (take i xs @ xs ! i # drop (Suc i) xs)"
    using d by simp
  then have "xs ! i \<notin> set (take i xs @ drop (Suc i) xs)"
    by simp
  moreover have "q \<in> set xs"
    using q by (auto dest: in_set_takeD in_set_dropD)
  ultimately show ?thesis using q by auto
qed

lemma userLeave_wraps:
  assumes "findIndex (has_userId st v) (remoteUsers st) = Some idx"
  shows "sendPcWarp (userLeave v st) = sendPcWarp st \<and>
         (\<forall>w. pcwraps (userLeave v st) w = pcwraps st w \<or>
              (pcwraps (userLeave v st) w = map_option close (pcwraps st w) \<and>
               (\<exists>u. users st (remoteUsers st ! idx) = Some u \<and> receivePcWrap u = Some w)))"
  using assms
  by (auto simp: userLeave_def upd_videoEl_def Let_def split: option.splits)

lemma userLeave_inv:
  assumes i: "inv nfc st"
  shows "inv nfc (userLeave v st)"
proof (cases "findIndex (has_userId st v) (remoteUsers st)")
  case None
  then show ?thesis using i by (simp add: userLeave_absent)
next
  case (Some idx)
  let ?st = "userLeave v st"
  let ?r = "remoteUsers st ! idx"
  note L = userLeave_found[OF Some]
  note W = userLeave_wraps[OF Some]
  have idx: "idx < length (remoteUsers st)"
    using findIndex_Some[OF Some] by simp
  have d: "distinct (remoteUsers st)" using i by (simp add: inv_def)
  have tbl: "remoteUsers ?st = take idx (remoteUsers st) @ drop (Suc idx) (remoteUsers st)"
    using L by simp
  have n: "nextRef ?st = nextRef st" using L by simp
  have rin: "?r \<in> set (remoteUsers st)" using idx by simp
  have mem: "q \<in> set (remoteUsers st) \<and> q \<noteq> ?r" if "q \<in> set (remoteUsers ?st)" for q
    using in_take_drop[OF d idx] that tbl by simp
  have same: "users ?st q = users st q" if "q \<in> set (remoteUsers ?st)" for q
    using L mem[OF that] by simp
  obtain ur where ur: "users st ?r = Some ur"
    using i rin by (auto simp: inv_def users_ok_def split: option.splits)
  have wr: "pcwraps ?st w = pcwraps st w" if "receivePcWrap ur \<noteq> Some w" for w
    using W ur that by auto
  have cl: "pcwraps ?st w = pcwraps st w \<or> pcwraps ?st w = map_option close (pcwraps st w)" for w
    using W by auto
  have 1: "table_wf ?st"
    unfolding table_wf_def
  proof
    fix q assume q: "q \<in> set (remoteUsers ?st)"
    have "q < nextRef st" "users st q \<noteq> None"
      using i mem[OF q] by (auto simp: inv_def table_wf_def)
    then show "q < nextRef ?st \<and> users ?st q \<noteq> None"
      using n same[OF q] by simp
  qed
  have 2: "distinct (remoteUsers ?st)"
    unfolding tbl by (rule distinct_take_drop[OF d])
  have 3: "unique_ids nfc ?st"
  proof -
    have "key_of nfc ?st q = key_of nfc st q" if "q \<in> set (remoteUsers ?st)" for q
      using same[OF that] by (simp add: key_of_def)
    then have "table_keys nfc ?st = map (key_of nfc st) (remoteUsers ?st)"
      by (simp add: table_keys_def)
    then have "table_keys nfc ?st =
        take idx (table_keys nfc st) @ drop (Suc idx) (table_keys nfc st)"
      by (simp add: tbl table_keys_def take_map drop_map)
    moreover have "distinct (table_keys nfc st)" using i by (simp add: inv_def unique_ids_def)
    then have "distinct (take idx (table_keys nfc st) @ drop (Suc idx) (table_keys nfc st))"
      by (rule distinct_take_drop)
    ultimately show ?thesis
      by (simp only: unique_ids_def)
  qed
  have apart: "receivePcWrap u \<noteq> receivePcWrap ur \<or> receivePcWrap u = None"
    if "q \<in> set (remoteUsers ?st)" "users st q = Some u" for q u
  proof -
    have "case (users st q, users st ?r) of
            (Some u, Some u') \<Rightarrow> receivePcWrap u = None \<or> receivePcWrap u \<noteq> receivePcWrap u'
          | _ \<Rightarrow> True"
      using i mem[OF that(1)] rin by (simp add: inv_def wrappers_apart_def)
    then show ?thesis using that(2) ur by auto
  qed
  have 4: "users_ok nfc ?st"
    unfolding users_ok_def
  proof
    fix q assume q: "q \<in> set (remoteUsers ?st)"
    obtain u where u: "users st q = Some u"
      and ok: "normalizeId nfc (JStr (userId u)) = userId u" "slots_ok st u" "stream_ok st u"
      using i mem[OF q] by (auto simp: inv_def users_ok_def split: option.splits)
    have s1: "slots_ok ?st u"
    proof (cases "receivePcWrap u")
      case None
      with ok(2) show ?thesis by (simp add: slots_ok_def)
    next
      case (Some w)
      with apart[OF q u] have "receivePcWrap ur \<noteq> Some w" by auto
      then have "pcwraps ?st w = pcwraps st w" by (rule wr)
      with ok(2) Some n show ?thesis by (simp add: slots_ok_def)
    qed
    have s2: "stream_ok ?st u"
      using ok(3) n L by (simp add: stream_ok_def split: option.splits)
    show "case users ?st q of None \<Rightarrow> False
        | Some u \<Rightarrow> normalizeId nfc (JStr (userId u)) = userId u \<and> slots_ok ?st u \<and> stream_ok ?st u"
      using same[OF q] u ok(1) s1 s2 by simp
  qed
  have 5: "wrappers_apart ?st"
    unfolding wrappers_apart_def
  proof (intro ballI impI)
    fix q q' assume a: "q \<in> set (remoteUsers ?st)" "q' \<in> set (remoteUsers ?st)" "q \<noteq> q'"
    have "case (users st q, users st q') of
            (Some u, Some u') \<Rightarrow> receivePcWrap u = None \<or> receivePcWrap u \<noteq> receivePcWrap u'
          | _ \<Rightarrow> True"
      using i mem[OF a(1)] mem[OF a(2)] a(3) by (simp add: inv_def wrappers_apart_def)
    then show "case (users ?st q, users ?st q') of
            (Some u, Some u') \<Rightarrow> receivePcWrap u = None \<or> receivePcWrap u \<noteq> receivePcWrap u'
          | _ \<Rightarrow> True"
      using same[OF a(1)] same[OF a(2)] by simp
  qed
  have 6: "send_ok ?st"
  proof (cases "sendPcWarp st")
    case None
    then show ?thesis using W by (simp add: send_ok_def)
  next
    case (Some w)
    with i obtain pw where pw: "pcwraps st w = Some pw" "direction pw = SendOnly" "w < nextRef st"
      by (auto simp: inv_def send_ok_def split: option.splits)
    then show ?thesis
      using Some W cl[of w] n by (auto simp: send_ok_def close_def)
  qed
  have 7: "calls_ok ?st"
    unfolding calls_ok_def
  proof (intro ballI impI)
    fix c assume c: "c \<in> set (calls ?st)" "offering (c_stage c)"
    then have r: "reserved st c" using i L by (simp add: inv_def calls_ok_def)
    then obtain pw where pw: "pcwraps st (c_wrap c) = Some pw"
      by (auto simp: reserved_def split: option.splits)
    have "pcwraps ?st (c_wrap c) = Some pw \<or> pcwraps ?st (c_wrap c) = Some (close pw)"
      using cl[of "c_wrap c"] pw by auto
    then show "reserved ?st c"
    proof
      assume "pcwraps ?st (c_wrap c) = Some pw"
      with r pw n show ?thesis by (simp add: reserved_def)
    next
      assume "pcwraps ?st (c_wrap c) = Some (close pw)"
      with r pw n show ?thesis by (simp add: reserved_def close_def)
    qed
  qed
  show ?thesis
    using 1 2 3 4 5 6 7 by (simp add: inv_def)
qed

subsection \<open>The invariant under the opening of the devices\<close>

lemma openDevices_direction: "direction (fst (snd (openDevices gum c pw log))) = direction pw"
  by (simp add: openDevices_def Let_def split: option.splits sum.splits)

lemma createOfferAndEmit_direction: "direction (snd (createOfferAndEmit gt offer pw)) = direction pw"
  by (simp add: createOfferAndEmit_def createOffer_prepare_def createOffer_finish_def
      initPeerConnection_def attachLocalTracks_def Let_def split: option.splits sum.splits prod.splits)

lemma setRemoteDescription_direction:
  "\<not> isl (setRemoteDescription a pw) \<Longrightarrow> direction (projr (setRemoteDescription a pw)) = direction pw"
  by (simp add: setRemoteDescription_def split: option.splits)

lemma onOpenDevices_send:
  assumes s: "sendPcWarp st = Some w0" and p: "pcwraps st w0 = Some pw"
  shows "sendPcWarp (onOpenDevices gum offer resp st) = Some w0 \<and>
         (\<forall>w. w \<noteq> w0 \<longrightarrow> pcwraps (onOpenDevices gum offer resp st) w = pcwraps st w) \<and>
         map_option direction (pcwraps (onOpenDevices gum offer resp st) w0) = Some (direction pw)"
proof (intro conjI allI impI)
  show "sendPcWarp (onOpenDevices gum offer resp st) = Some w0"
    using s
    by (simp add: onOpenDevices_def alert_def Let_def
        option.case_distrib[of sendPcWarp] prod.case_distrib[of sendPcWarp]
        sum.case_distrib[of sendPcWarp] if_distrib[of sendPcWarp] proj_cases
        cong: if_cong option.case_cong sum.case_cong prod.case_cong)
  fix w assume "w \<noteq> w0"
  then show "pcwraps (onOpenDevices gum offer resp st) w = pcwraps st w"
    using s
    by (simp add: onOpenDevices_def alert_def Let_def
        option.case_distrib[of "\<lambda>x. pcwraps x w"] prod.case_distrib[of "\<lambda>x. pcwraps x w"]
        sum.case_distrib[of "\<lambda>x. pcwraps x w"] if_distrib[of "\<lambda>x. pcwraps x w"] proj_cases
        cong: if_cong option.case_cong sum.case_cong prod.case_cong)
next
  show "map_option direction (pcwraps (onOpenDevices gum offer resp st) w0) = Some (direction pw)"
    using s p
    by (simp add: onOpenDevices_def alert_def Let_def
        prod.case_eq_if sum.case_eq_if
        if_distrib[of "\<lambda>x. map_option direction (pcwraps x w0)"]
        openDevices_direction createOfferAndEmit_direction setRemoteDescription_direction
        cong: if_cong)
qed

lemma onOpenDevices_not_joined:
  "wsStatus st \<noteq> WsJoined \<Longrightarrow> onOpenDevices gum offer resp st = alert ''Please join a room first.'' st"
  by (simp add: onOpenDevices_def)

lemma onOpenDevices_first:
  assumes s: "sendPcWarp st = None" and j: "wsStatus st = WsJoined"
  shows "sendPcWarp (onOpenDevices gum offer resp st) = Some (nextRef st) \<and>
         (\<forall>w. w \<noteq> nextRef st \<longrightarrow> pcwraps (onOpenDevices gum offer resp st) w = pcwraps st w) \<and>
         map_option direction (pcwraps (onOpenDevices gum offer resp st) (nextRef st)) = Some SendOnly"
proof (intro conjI allI impI)
  show "sendPcWarp (onOpenDevices gum offer resp st) = Some (nextRef st)"
    using s j
    by (simp add: onOpenDevices_def alert_def Let_def
        option.case_distrib[of sendPcWarp] prod.case_distrib[of sendPcWarp]
        sum.case_distrib[of sendPcWarp] if_distrib[of sendPcWarp] proj_cases
        cong: if_cong option.case_cong sum.case_cong prod.case_cong)
  fix w assume "w \<noteq> nextRef st"
  then show "pcwraps (onOpenDevices gum offer resp st) w = pcwraps st w"
    using s j
    by (simp add: onOpenDevices_def alert_def Let_def
        option.case_distrib[of "\<lambda>x. pcwraps x w"] prod.case_distrib[of "\<lambda>x. pcwraps x w"]
        sum.case_distrib[of "\<lambda>x. pcwraps x w"] if_distrib[of "\<lambda>x. pcwraps x w"] proj_cases
        cong: if_cong option.case_cong sum.case_cong prod.case_cong)
next
  show "map_option direction (pcwraps (onOpenDevices gum offer resp st) (nextRef st)) = Some SendOnly"
    using s j
    by (simp add: onOpenDevices_def alert_def Let_def
        prod.case_eq_if sum.case_eq_if
        if_distrib[of "\<lambda>x. map_option direction (pcwraps x (nextRef st))"]
        openDevices_direction createOfferAndEmit_direction setRemoteDescription_direction
        PCWrap_new_def
        cong: if_cong)
qed

lemma onOpenDevices_inv:
  assumes i: "inv nfc st"
  shows "inv nfc (onOpenDevices gum offer resp st)"
proof -
  let ?st = "onOpenDevices gum offer resp st"
  note F = onOpenDevices_frame[of gum offer resp st]
  have q: "quiet st ?st" by (rule quiet_onOpenDevices)
  have n: "nextRef st \<le> nextRef ?st" using q by (simp add: quiet_def)
  text \<open>The wrappers other than that of the local publication stay.\<close>
  have other: "sendPcWarp ?st = sendPcWarp st \<and> pcwraps ?st = pcwraps st \<or>
               (\<exists>w0. sendPcWarp ?st = Some w0 \<and> w0 < nextRef ?st \<and>
                  (\<forall>w. w \<noteq> w0 \<longrightarrow> pcwraps ?st w = pcwraps st w) \<and>
                  map_option direction (pcwraps ?st w0) = Some SendOnly \<and>
                  (\<forall>pw. pcwraps st w0 = Some pw \<longrightarrow> w0 < nextRef st \<longrightarrow> direction pw = SendOnly))"
  proof (cases "sendPcWarp st")
    case None
    show ?thesis
    proof (cases "wsStatus st = WsJoined")
      case False
      then show ?thesis by (simp add: onOpenDevices_not_joined alert_def)
    next
      case True
      have "nextRef ?st = nextRef st + 1"
        using None True by (simp add: onOpenDevices_nextRef)
      with onOpenDevices_first[OF None True, of gum offer resp] show ?thesis
        by auto
    qed
  next
    case (Some w0)
    with i obtain pw where pw: "pcwraps st w0 = Some pw" "direction pw = SendOnly" "w0 < nextRef st"
      by (auto simp: inv_def send_ok_def split: option.splits)
    with onOpenDevices_send[OF Some pw(1), of gum offer resp] n show ?thesis
      by auto
  qed
  have keep: "pcwraps ?st w = pcwraps st w"
    if "pcwraps st w = Some pw" "direction pw = RecvOnly" "w < nextRef st" for w pw
  proof -
    have "pcwraps ?st w = pcwraps st w"
      if a: "\<forall>w. w \<noteq> w0 \<longrightarrow> pcwraps ?st w = pcwraps st w"
        "\<forall>pw. pcwraps st w0 = Some pw \<longrightarrow> w0 < nextRef st \<longrightarrow> direction pw = SendOnly" for w0
    proof -
      have "w \<noteq> w0" using a(2) \<open>pcwraps st w = Some pw\<close> \<open>direction pw = RecvOnly\<close> \<open>w < nextRef st\<close>
        by auto
      with a(1) show ?thesis by simp
    qed
    with other show ?thesis by auto
  qed
  have 1: "table_wf ?st" using quiet_table_wf[OF q] i by (simp add: inv_def)
  have 2: "distinct (remoteUsers ?st)" using i F by (simp add: inv_def)
  have 3: "unique_ids nfc ?st" using quiet_unique_ids[OF q] i by (simp add: inv_def)
  have 4: "users_ok nfc ?st"
    unfolding users_ok_def
  proof
    fix r assume "r \<in> set (remoteUsers ?st)"
    then have r: "r \<in> set (remoteUsers st)" using F by simp
    with i obtain u where u: "users st r = Some u"
      and ok: "normalizeId nfc (JStr (userId u)) = userId u" "slots_ok st u" "stream_ok st u"
      by (auto simp: inv_def users_ok_def split: option.splits)
    have s1: "slots_ok ?st u"
    proof (cases "receivePcWrap u")
      case None
      with ok(2) show ?thesis by (simp add: slots_ok_def)
    next
      case (Some w)
      with ok(2) obtain pw where pw: "pcwraps st w = Some pw" "direction pw = RecvOnly" "w < nextRef st"
        by (auto simp: slots_ok_def split: option.splits)
      have "pcwraps ?st w = pcwraps st w" by (rule keep[OF pw])
      with ok(2) Some n pw show ?thesis by (simp add: slots_ok_def)
    qed
    have s2: "stream_ok ?st u"
      using ok(3) n F by (auto simp: stream_ok_def split: option.splits)
    show "case users ?st r of None \<Rightarrow> False
        | Some u \<Rightarrow> normalizeId nfc (JStr (userId u)) = userId u \<and> slots_ok ?st u \<and> stream_ok ?st u"
      using F u ok(1) s1 s2 by simp
  qed
  have 5: "wrappers_apart ?st"
    using i F by (simp add: inv_def wrappers_apart_def)
  have 6: "send_ok ?st"
    using other
  proof
    assume "sendPcWarp ?st = sendPcWarp st \<and> pcwraps ?st = pcwraps st"
    then show ?thesis
      using i n by (auto simp: inv_def send_ok_def split: option.splits)
  next
    assume "\<exists>w0. sendPcWarp ?st = Some w0 \<and> w0 < nextRef ?st \<and>
                  (\<forall>w. w \<noteq> w0 \<longrightarrow> pcwraps ?st w = pcwraps st w) \<and>
                  map_option direction (pcwraps ?st w0) = Some SendOnly \<and>
                  (\<forall>pw. pcwraps st w0 = Some pw \<longrightarrow> w0 < nextRef st \<longrightarrow> direction pw = SendOnly)"
    then show ?thesis
      by (auto simp: send_ok_def split: option.splits)
  qed
  have 7: "calls_ok ?st"
    unfolding calls_ok_def
  proof (intro ballI impI)
    fix c assume c: "c \<in> set (calls ?st)" "offering (c_stage c)"
    then have r: "reserved st c" using i F by (simp add: inv_def calls_ok_def)
    then obtain pw where pw: "pcwraps st (c_wrap c) = Some pw" "direction pw = RecvOnly"
      "c_wrap c < nextRef st"
      by (auto simp: reserved_def split: option.splits)
    have "pcwraps ?st (c_wrap c) = pcwraps st (c_wrap c)" by (rule keep[OF pw])
    with r n show "reserved ?st c" by (simp add: reserved_def)
  qed
  show ?thesis
    using 1 2 3 4 5 6 7 by (simp add: inv_def)
qed

subsection \<open>What an upsert does to the state\<close>

lemma fresh_wrapper:
  "\<exists>pw p. addTransceivers gt specs (PCWrap_new (Some RecvOnly)) = Inr pw \<and>
      direction pw = RecvOnly \<and> pc pw = Some p \<and>
      length (transceivers p) = length (recvMap pw) \<and>
      set (map fst (recvMap pw)) = set (map pusher_id specs)"
proof -
  let ?L = "addTransceivers_loop specs (RTCPeerConnection_new, [])"
  have e: "addTransceivers gt specs (PCWrap_new (Some RecvOnly)) =
             Inr \<lparr>pc = Some (fst ?L), localStream = None, direction = RecvOnly,
                  recvMap = snd ?L, mediaConstraints = None, trackListeners = []\<rparr>"
    by (simp add: addTransceivers_def initPeerConnection_def PCWrap_new_def Let_def case_prod_beta)
  note P = addTransceivers_loop_props[of "[]" specs RTCPeerConnection_new]
  have t: "transceivers RTCPeerConnection_new = []"
    by (simp add: RTCPeerConnection_new_def)
  show ?thesis
    unfolding e using P t by simp
qed

lemma upsert_with_wrapper:
  assumes found: "find (same_id nfc st (p_userId user)) (remoteUsers st) = Some r"
    and u: "users st r = Some u" and w: "receivePcWrap u = Some w"
  shows "nextRef (snd (upsertRemoteUser nfc user st)) = nextRef st \<and>
         streams (snd (upsertRemoteUser nfc user st)) = streams st \<and>
         calls (snd (upsertRemoteUser nfc user st)) = calls st \<and>
         sendPcWarp (snd (upsertRemoteUser nfc user st)) = sendPcWarp st \<and>
         remoteUsers (snd (upsertRemoteUser nfc user st)) = remoteUsers st \<and>
         (\<forall>q. q \<noteq> r \<longrightarrow> users (snd (upsertRemoteUser nfc user st)) q = users st q) \<and>
         (\<forall>x. x \<noteq> w \<longrightarrow> pcwraps (snd (upsertRemoteUser nfc user st)) x = pcwraps st x) \<and>
         (\<exists>u'. users (snd (upsertRemoteUser nfc user st)) r = Some u' \<and> userId u' = userId u \<and>
               receivePcWrap u' = Some w \<and> playStream u' = playStream u \<and>
               pushers u' = pushers u @ added_pushers u user)"
  using assms
  by (auto simp: upsertRemoteUser_def Let_def added_pushers_def split: option.splits sum.splits)

lemma upsert_name_only:
  assumes found: "find (same_id nfc st (p_userId user)) (remoteUsers st) = Some r"
    and u: "users st r = Some u" and w: "receivePcWrap u = None"
    and e: "pushers u @ added_pushers u user = []"
  shows "upsertRemoteUser nfc user st =
           (Inr r, st\<lparr>users := (users st)(r := Some (u
              \<lparr>userName := (case p_userName user of Some n \<Rightarrow> Some n | None \<Rightarrow> userName u),
               pushers := []\<rparr>))\<rparr>)"
proof -
  have a: "pushers u = []" using e by simp
  have b: "(case p_pushers user of Some ps \<Rightarrow> ps | None \<Rightarrow> []) = []"
    using e a by (simp add: added_pushers_def)
  show ?thesis
    using found u w a b by (simp add: upsertRemoteUser_def Let_def)
qed

lemma upsert_new_wrapper:
  assumes found: "find (same_id nfc st (p_userId user)) (remoteUsers st) = Some r"
    and u: "users st r = Some u" and w: "receivePcWrap u = None"
    and e: "pushers u @ added_pushers u user \<noteq> []"
  shows "\<exists>pw p.
           fst (upsertRemoteUser nfc user st) = Inr r \<and>
           direction pw = RecvOnly \<and> pc pw = Some p \<and>
           length (transceivers p) = length (recvMap pw) \<and>
           set (map fst (recvMap pw)) = set (map pusherId (pushers u @ added_pushers u user)) \<and>
           users (snd (upsertRemoteUser nfc user st)) =
             (users st)(r := Some (u
                \<lparr>userName := (case p_userName user of Some n \<Rightarrow> Some n | None \<Rightarrow> userName u),
                 pushers := pushers u @ added_pushers u user,
                 receivePcWrap := Some (nextRef st), playStream := Some (nextRef st + 1)\<rparr>)) \<and>
           pcwraps (snd (upsertRemoteUser nfc user st)) = (pcwraps st)(nextRef st := Some pw) \<and>
           streams (snd (upsertRemoteUser nfc user st)) = (streams st)(nextRef st + 1 := Some []) \<and>
           nextRef (snd (upsertRemoteUser nfc user st)) = nextRef st + 2 \<and>
           remoteUsers (snd (upsertRemoteUser nfc user st)) = remoteUsers st \<and>
           calls (snd (upsertRemoteUser nfc user st)) = calls st \<and>
           sendPcWarp (snd (upsertRemoteUser nfc user st)) = sendPcWarp st"
proof -
  let ?ps = "pushers u @ added_pushers u user"
  from fresh_wrapper[of "captureTracks st" "specs_of ?ps"] obtain pw p where
    pw: "addTransceivers (captureTracks st) (specs_of ?ps) (PCWrap_new (Some RecvOnly)) = Inr pw"
      "direction pw = RecvOnly" "pc pw = Some p" "length (transceivers p) = length (recvMap pw)"
      "set (map fst (recvMap pw)) = set (map pusher_id (specs_of ?ps))"
    by blast
  have ids: "map pusher_id (specs_of ?ps) = map pusherId ?ps"
    by (simp add: specs_of_def comp_def)
  have k: "set (map fst (recvMap pw)) = set (map pusherId ?ps)"
    using pw(5) ids by simp
  have pw1: "addTransceivers (captureTracks st)
      (specs_of (pushers u @ filter (\<lambda>p. pusherId p \<notin> set (map pusherId (pushers u)))
         (case p_pushers user of Some ps \<Rightarrow> ps | None \<Rightarrow> []))) (PCWrap_new (Some RecvOnly)) = Inr pw"
    using pw(1) by (simp add: added_pushers_def)
  have e1: "pushers u @ filter (\<lambda>p. pusherId p \<notin> set (map pusherId (pushers u)))
         (case p_pushers user of Some ps \<Rightarrow> ps | None \<Rightarrow> []) \<noteq> []"
    using e by (simp add: added_pushers_def)
  have r: "upsertRemoteUser nfc user st =
      (Inr r, st\<lparr>users := (users st)(r := Some (u
                \<lparr>userName := (case p_userName user of Some n \<Rightarrow> Some n | None \<Rightarrow> userName u),
                 pushers := pushers u @ added_pushers u user,
                 receivePcWrap := Some (nextRef st), playStream := Some (nextRef st + 1)\<rparr>)),
              streams := (streams st)(nextRef st + 1 := Some []),
              nextRef := nextRef st + 2,
              pcwraps := (pcwraps st)(nextRef st := Some pw)\<rparr>)"
  proof (cases "pushers u = []")
    case True
    with e have "(case p_pushers user of Some ps \<Rightarrow> ps | None \<Rightarrow> []) \<noteq> []"
      by (auto simp: added_pushers_def)
    with True found u w pw1 show ?thesis
      by (simp add: upsertRemoteUser_def Let_def added_pushers_def)
  next
    case False
    with found u w pw1 show ?thesis
      by (simp add: upsertRemoteUser_def Let_def added_pushers_def)
  qed
  show ?thesis
    apply (rule exI[of _ pw])
    apply (rule exI[of _ p])
    using pw(2,3,4) k by (simp add: r)
qed

lemma upsert_create_plain:
  assumes nf: "find (same_id nfc st (p_userId user)) (remoteUsers st) = None"
    and e: "(case p_pushers user of Some ps \<Rightarrow> ps | None \<Rightarrow> []) = []"
  shows "upsertRemoteUser nfc user st =
           (Inr (nextRef st),
            st\<lparr>users := (users st)(nextRef st := Some
                   \<lparr>userId = normalizeId nfc (p_userId user), userName = p_userName user,
                    pushers = [], videoRef = None, receivePcWrap = None, playStream = None,
                    videoMuted = None, audioMuted = None, state = None\<rparr>),
               nextRef := nextRef st + 1,
               remoteUsers := remoteUsers st @ [nextRef st]\<rparr>)"
  using nf e by (simp add: upsertRemoteUser_def createRemoteUser_def Let_def)

lemma upsert_create_wrapper:
  assumes nf: "find (same_id nfc st (p_userId user)) (remoteUsers st) = None"
    and e: "(case p_pushers user of Some ps \<Rightarrow> ps | None \<Rightarrow> []) \<noteq> []"
  shows "\<exists>pw p.
           direction pw = RecvOnly \<and> pc pw = Some p \<and>
           length (transceivers p) = length (recvMap pw) \<and>
           set (map fst (recvMap pw)) =
             set (map pusherId (case p_pushers user of Some ps \<Rightarrow> ps | None \<Rightarrow> [])) \<and>
           upsertRemoteUser nfc user st =
           (Inr (nextRef st),
            st\<lparr>users := (users st)(nextRef st := Some
                   \<lparr>userId = normalizeId nfc (p_userId user), userName = p_userName user,
                    pushers = (case p_pushers user of Some ps \<Rightarrow> ps | None \<Rightarrow> []),
                    videoRef = None, receivePcWrap = Some (nextRef st + 1),
                    playStream = Some (nextRef st + 2),
                    videoMuted = Some False, audioMuted = Some False, state = None\<rparr>),
               pcwraps := (pcwraps st)(nextRef st + 1 := Some pw),
               streams := (streams st)(nextRef st + 2 := Some []),
               nextRef := nextRef st + 3,
               remoteUsers := remoteUsers st @ [nextRef st]\<rparr>)"
proof -
  let ?ps = "case p_pushers user of Some ps \<Rightarrow> ps | None \<Rightarrow> []"
  from fresh_wrapper[of "captureTracks st" "specs_of ?ps"] obtain pw p where
    pw: "addTransceivers (captureTracks st) (specs_of ?ps) (PCWrap_new (Some RecvOnly)) = Inr pw"
      "direction pw = RecvOnly" "pc pw = Some p" "length (transceivers p) = length (recvMap pw)"
      "set (map fst (recvMap pw)) = set (map pusher_id (specs_of ?ps))"
    by blast
  have ids: "map pusher_id (specs_of ?ps) = map pusherId ?ps"
    by (simp add: specs_of_def comp_def)
  have k: "set (map fst (recvMap pw)) = set (map pusherId ?ps)"
    using pw(5) ids by simp
  have r: "upsertRemoteUser nfc user st =
           (Inr (nextRef st),
            st\<lparr>users := (users st)(nextRef st := Some
                   \<lparr>userId = normalizeId nfc (p_userId user), userName = p_userName user,
                    pushers = ?ps,
                    videoRef = None, receivePcWrap = Some (nextRef st + 1),
                    playStream = Some (nextRef st + 2),
                    videoMuted = Some False, audioMuted = Some False, state = None\<rparr>),
               pcwraps := (pcwraps st)(nextRef st + 1 := Some pw),
               streams := (streams st)(nextRef st + 2 := Some []),
               nextRef := nextRef st + 3,
               remoteUsers := remoteUsers st @ [nextRef st]\<rparr>)"
    using nf e pw(1) by (simp add: upsertRemoteUser_def createRemoteUser_def Let_def)
  show ?thesis
    apply (rule exI[of _ pw])
    apply (rule exI[of _ p])
    using pw(2,3,4) k r by simp
qed

subsection \<open>The invariant under an upsert\<close>

lemma extends_keys: "extends m m' \<Longrightarrow> set (map fst m) \<subseteq> set (map fst m')"
  by (auto simp: extends_def)

lemma extends_nonempty: "extends xs ys \<Longrightarrow> xs \<noteq> [] \<Longrightarrow> ys \<noteq> []"
  by (auto simp: extends_def)

lemma slots_ok_grow:
  assumes n: "nextRef st \<le> nextRef st'"
    and w: "\<forall>x < nextRef st. pcwraps st' x = pcwraps st x \<or>
              (\<exists>pw pw'. pcwraps st x = Some pw \<and> pcwraps st' x = Some pw' \<and>
                 direction pw = RecvOnly \<and> grown pw pw')"
    and s: "slots_ok st u"
  shows "slots_ok st' u"
proof (cases "receivePcWrap u")
  case None
  with s show ?thesis by (simp add: slots_ok_def)
next
  case (Some x)
  with s obtain pw p where pw: "x < nextRef st" "pushers u \<noteq> []" "pcwraps st x = Some pw"
    "direction pw = RecvOnly" "pc pw = Some p" "length (transceivers p) = length (recvMap pw)"
    "set (map pusherId (pushers u)) \<subseteq> set (map fst (recvMap pw))"
    by (auto simp: slots_ok_def split: option.splits)
  from w pw(1) have "pcwraps st' x = pcwraps st x \<or>
      (\<exists>pw0 pw'. pcwraps st x = Some pw0 \<and> pcwraps st' x = Some pw' \<and> direction pw0 = RecvOnly \<and> grown pw0 pw')"
    by blast
  then show ?thesis
  proof
    assume "pcwraps st' x = pcwraps st x"
    with s Some n pw show ?thesis by (simp add: slots_ok_def)
  next
    assume "\<exists>pw0 pw'. pcwraps st x = Some pw0 \<and> pcwraps st' x = Some pw' \<and> direction pw0 = RecvOnly \<and> grown pw0 pw'"
    then obtain pw' where g: "pcwraps st' x = Some pw'" "grown pw pw'"
      using pw(3) by auto
    from g(2) pw(5) obtain p' where p': "pc pw' = Some p'"
      "length (transceivers p') + length (recvMap pw) = length (transceivers p) + length (recvMap pw')"
      by (auto simp: grown_def split: option.splits)
    have k: "set (map fst (recvMap pw)) \<subseteq> set (map fst (recvMap pw'))"
      using g(2) extends_keys[of "recvMap pw" "recvMap pw'"] by (simp add: grown_def)
    have d: "direction pw' = RecvOnly" using g(2) pw(4) by (simp add: grown_def)
    have l: "length (transceivers p') = length (recvMap pw')" using p'(2) pw(6) by simp
    have i: "set (map pusherId (pushers u)) \<subseteq> set (map fst (recvMap pw'))"
      using pw(7) k by (rule subset_trans)
    show ?thesis
      using Some pw(1,2) n g(1) d p'(1) l i by (simp add: slots_ok_def)
  qed
qed

lemma reserved_grow:
  assumes n: "nextRef st \<le> nextRef st'"
    and w: "\<forall>x < nextRef st. pcwraps st' x = pcwraps st x \<or>
              (\<exists>pw pw'. pcwraps st x = Some pw \<and> pcwraps st' x = Some pw' \<and>
                 direction pw = RecvOnly \<and> grown pw pw')"
    and r: "reserved st c"
  shows "reserved st' c"
proof -
  from r obtain pw where pw: "c_wrap c < nextRef st" "c_specs c \<noteq> []" "pcwraps st (c_wrap c) = Some pw"
    "direction pw = RecvOnly" "set (map pusher_id (c_specs c)) \<subseteq> set (map fst (recvMap pw))"
    by (auto simp: reserved_def split: option.splits)
  from w pw(1) have "pcwraps st' (c_wrap c) = pcwraps st (c_wrap c) \<or>
      (\<exists>pw0 pw'. pcwraps st (c_wrap c) = Some pw0 \<and> pcwraps st' (c_wrap c) = Some pw' \<and>
         direction pw0 = RecvOnly \<and> grown pw0 pw')"
    by blast
  then show ?thesis
  proof
    assume "pcwraps st' (c_wrap c) = pcwraps st (c_wrap c)"
    with r n show ?thesis by (simp add: reserved_def)
  next
    assume "\<exists>pw0 pw'. pcwraps st (c_wrap c) = Some pw0 \<and> pcwraps st' (c_wrap c) = Some pw' \<and>
         direction pw0 = RecvOnly \<and> grown pw0 pw'"
    then obtain pw' where g: "pcwraps st' (c_wrap c) = Some pw'" "grown pw pw'"
      using pw(3) by auto
    from g(2) obtain p p' where p: "pc pw = Some p" "pc pw' = Some p'"
      "extends (transceivers p) (transceivers p')"
      "length (transceivers p') + length (recvMap pw) = length (transceivers p) + length (recvMap pw')"
      by (auto simp: grown_def split: option.splits)
    from r pw(3) p(1) have q: "transceivers p \<noteq> []" "length (transceivers p) = length (recvMap pw)"
      by (simp_all add: reserved_def)
    have k: "set (map fst (recvMap pw)) \<subseteq> set (map fst (recvMap pw'))"
      using g(2) extends_keys[of "recvMap pw" "recvMap pw'"] by (simp add: grown_def)
    have d: "direction pw' = RecvOnly" using g(2) pw(4) by (simp add: grown_def)
    have l: "length (transceivers p') = length (recvMap pw')" using p(4) q(2) by simp
    have e: "transceivers p' \<noteq> []" by (rule extends_nonempty[OF p(3) q(1)])
    have i: "set (map pusher_id (c_specs c)) \<subseteq> set (map fst (recvMap pw'))"
      using pw(5) k by (rule subset_trans)
    show ?thesis
      using pw(1,2) n g(1) d p(2) l e i by (simp add: reserved_def)
  qed
qed

lemma stream_ok_grow:
  assumes n: "nextRef st \<le> nextRef st'"
    and s: "\<forall>x < nextRef st. streams st' x = streams st x"
    and o: "stream_ok st u"
  shows "stream_ok st' u"
  using assms by (auto simp: stream_ok_def split: option.splits)

lemma inv_grow:
  assumes i: "inv nfc st"
    and n: "nextRef st \<le> nextRef st'"
    and t: "table_wf st'" and d: "distinct (remoteUsers st')" and un: "unique_ids nfc st'"
    and f: "sendPcWarp st' = sendPcWarp st" and c: "calls st' = calls st"
    and s: "\<forall>x < nextRef st. streams st' x = streams st x"
    and w: "\<forall>x < nextRef st. pcwraps st' x = pcwraps st x \<or>
              (\<exists>pw pw'. pcwraps st x = Some pw \<and> pcwraps st' x = Some pw' \<and>
                 direction pw = RecvOnly \<and> grown pw pw')"
    and u: "\<forall>q \<in> set (remoteUsers st'). q \<noteq> r0 \<longrightarrow> q \<in> set (remoteUsers st) \<and> users st' q = users st q"
    and r0: "r0 \<in> set (remoteUsers st') \<longrightarrow>
              (\<exists>u'. users st' r0 = Some u' \<and> normalizeId nfc (JStr (userId u')) = userId u' \<and>
                 slots_ok st' u' \<and> stream_ok st' u' \<and>
                 (\<forall>x. receivePcWrap u' = Some x \<longrightarrow>
                    nextRef st \<le> x \<or>
                    (r0 \<in> set (remoteUsers st) \<and> (\<exists>u. users st r0 = Some u \<and> receivePcWrap u = Some x))))"
  shows "inv nfc st'"
proof -
  have old: "\<exists>v. users st q = Some v \<and> users st' q = Some v \<and> q \<in> set (remoteUsers st) \<and>
               normalizeId nfc (JStr (userId v)) = userId v \<and> slots_ok st v \<and> stream_ok st v"
    if "q \<in> set (remoteUsers st')" "q \<noteq> r0" for q
  proof -
    from u that have q: "q \<in> set (remoteUsers st)" "users st' q = users st q" by auto
    with i show ?thesis by (auto simp: inv_def users_ok_def split: option.splits)
  qed
  have 4: "users_ok nfc st'"
    unfolding users_ok_def
  proof
    fix q assume q: "q \<in> set (remoteUsers st')"
    show "case users st' q of None \<Rightarrow> False
        | Some u \<Rightarrow> normalizeId nfc (JStr (userId u)) = userId u \<and> slots_ok st' u \<and> stream_ok st' u"
    proof (cases "q = r0")
      case True
      with r0 q show ?thesis by auto
    next
      case False
      from old[OF q False] obtain v where v: "users st' q = Some v"
        "normalizeId nfc (JStr (userId v)) = userId v" "slots_ok st v" "stream_ok st v"
        by blast
      have "slots_ok st' v" by (rule slots_ok_grow[OF n w v(3)])
      moreover have "stream_ok st' v" by (rule stream_ok_grow[OF n s v(4)])
      ultimately show ?thesis using v(1,2) by simp
    qed
  qed
  have lt: "x < nextRef st" if "users st q = Some v" "q \<in> set (remoteUsers st)" "receivePcWrap v = Some x" for q v x
  proof -
    have "slots_ok st v" using i that(1,2) by (auto simp: inv_def users_ok_def split: option.splits)
    with that(3) show ?thesis by (simp add: slots_ok_def)
  qed
  have ap: "receivePcWrap a = None \<or> receivePcWrap a \<noteq> receivePcWrap b"
    if "q \<in> set (remoteUsers st)" "q' \<in> set (remoteUsers st)" "q \<noteq> q'"
      "users st q = Some a" "users st q' = Some b" for q q' a b
  proof -
    have "case (users st q, users st q') of
            (Some u, Some u') \<Rightarrow> receivePcWrap u = None \<or> receivePcWrap u \<noteq> receivePcWrap u'
          | _ \<Rightarrow> True"
      using i that(1,2,3) by (simp add: inv_def wrappers_apart_def)
    with that(4,5) show ?thesis by simp
  qed
  have new: "receivePcWrap a \<noteq> receivePcWrap b"
    if q: "q \<in> set (remoteUsers st')" "q \<noteq> r0" "r0 \<in> set (remoteUsers st')"
      "users st' q = Some a" "users st' r0 = Some b" "receivePcWrap a \<noteq> None" for q a b
  proof -
    from old[OF q(1,2)] q(4) have a: "users st q = Some a" "q \<in> set (remoteUsers st)" by auto
    from q(6) obtain x where x: "receivePcWrap a = Some x" by auto
    have xl: "x < nextRef st" by (rule lt[OF a x])
    from r0 q(3,5) have alt: "\<forall>y. receivePcWrap b = Some y \<longrightarrow>
                    nextRef st \<le> y \<or>
                    (r0 \<in> set (remoteUsers st) \<and> (\<exists>u. users st r0 = Some u \<and> receivePcWrap u = Some y))"
      by auto
    show ?thesis
    proof
      assume e: "receivePcWrap a = receivePcWrap b"
      with x have bx: "receivePcWrap b = Some x" by simp
      with alt xl obtain v where v: "r0 \<in> set (remoteUsers st)" "users st r0 = Some v" "receivePcWrap v = Some x"
        by auto
      from ap[OF a(2) v(1) q(2) a(1) v(2)] x v(3) show False by simp
    qed
  qed
  have 5: "wrappers_apart st'"
    unfolding wrappers_apart_def
  proof (intro ballI impI)
    fix q q' assume a: "q \<in> set (remoteUsers st')" "q' \<in> set (remoteUsers st')" "q \<noteq> q'"
    show "case (users st' q, users st' q') of
            (Some u, Some u') \<Rightarrow> receivePcWrap u = None \<or> receivePcWrap u \<noteq> receivePcWrap u'
          | _ \<Rightarrow> True"
    proof (cases "users st' q")
      case None
      then show ?thesis by simp
    next
      case (Some x)
      note sq = Some
      show ?thesis
      proof (cases "users st' q'")
        case None
        with sq show ?thesis by simp
      next
        case (Some y)
        have "receivePcWrap x = None \<or> receivePcWrap x \<noteq> receivePcWrap y"
        proof (cases "q = r0")
          case True
          with a have q': "q' \<noteq> r0" by simp
          show ?thesis
          proof (cases "receivePcWrap y = None")
            case True
            then show ?thesis by auto
          next
            case False
            from new[OF a(2) q' _ Some _ False] a(1) sq \<open>q = r0\<close>
            show ?thesis by auto
          qed
        next
          case False
          note qr = False
          show ?thesis
          proof (cases "q' = r0")
            case True
            show ?thesis
            proof (cases "receivePcWrap x = None")
              case True
              then show ?thesis by simp
            next
              case False
              from new[OF a(1) qr _ sq _ False] a(2) Some True show ?thesis by auto
            qed
          next
            case False
            from old[OF a(1) qr] sq have 1: "users st q = Some x" "q \<in> set (remoteUsers st)" by auto
            from old[OF a(2) False] Some have 2: "users st q' = Some y" "q' \<in> set (remoteUsers st)" by auto
            from ap[OF 1(2) 2(2) a(3) 1(1) 2(1)] show ?thesis .
          qed
        qed
        with sq Some show ?thesis by simp
      qed
    qed
  qed
  have 6: "send_ok st'"
  proof (cases "sendPcWarp st")
    case None
    then show ?thesis using f by (simp add: send_ok_def)
  next
    case (Some x)
    with i obtain pw where pw: "pcwraps st x = Some pw" "direction pw = SendOnly" "x < nextRef st"
      by (auto simp: inv_def send_ok_def split: option.splits)
    from w pw(3) have "pcwraps st' x = pcwraps st x \<or>
      (\<exists>pw0 pw'. pcwraps st x = Some pw0 \<and> pcwraps st' x = Some pw' \<and> direction pw0 = RecvOnly \<and> grown pw0 pw')"
      by blast
    with pw have "pcwraps st' x = pcwraps st x" by auto
    with Some f pw n show ?thesis by (simp add: send_ok_def)
  qed
  have 7: "calls_ok st'"
    unfolding calls_ok_def
  proof (intro ballI impI)
    fix x assume x: "x \<in> set (calls st')" "offering (c_stage x)"
    then have "reserved st x" using i c by (simp add: inv_def calls_ok_def)
    then show "reserved st' x" by (rule reserved_grow[OF n w])
  qed
  show ?thesis
    using t d un 4 5 6 7 by (simp add: inv_def)
qed

lemma upsert_existing_fst:
  assumes found: "find (same_id nfc st (p_userId user)) (remoteUsers st) = Some r"
    and u: "users st r = Some u" and w: "receivePcWrap u = Some w"
    and pw: "pcwraps st w = Some pw" and dir: "direction pw = RecvOnly" and p: "pc pw = Some p"
  shows "fst (upsertRemoteUser nfc user st) = Inr r"
  using assms addTransceivers_recvonly[OF dir p, of "captureTracks st"]
  by (simp add: upsertRemoteUser_def Let_def)

lemma upsert_inv_wrapper:
  assumes nfc: "nfc_stable nfc" and i: "inv nfc st"
    and found: "find (same_id nfc st (p_userId user)) (remoteUsers st) = Some r"
    and u: "users st r = Some u" and w: "receivePcWrap u = Some w"
  shows "inv nfc (snd (upsertRemoteUser nfc user st)) \<and> fst (upsertRemoteUser nfc user st) = Inr r"
proof -
  let ?st = "snd (upsertRemoteUser nfc user st)"
  let ?added = "added_pushers u user"
  have rin: "r \<in> set (remoteUsers st)" using find_Some_D[OF found] by simp
  have ok: "normalizeId nfc (JStr (userId u)) = userId u" "slots_ok st u" "stream_ok st u"
    using i rin u by (auto simp: inv_def users_ok_def)
  from ok(2) w obtain pw p where pw: "w < nextRef st" "pushers u \<noteq> []" "pcwraps st w = Some pw"
    "direction pw = RecvOnly" "pc pw = Some p" "length (transceivers p) = length (recvMap pw)"
    "set (map pusherId (pushers u)) \<subseteq> set (map fst (recvMap pw))"
    by (auto simp: slots_ok_def split: option.splits)
  note F = upsert_with_wrapper[OF found u w, of]
  from F obtain u' where u': "users ?st r = Some u'" "userId u' = userId u"
    "receivePcWrap u' = Some w" "playStream u' = playStream u" "pushers u' = pushers u @ ?added"
    by blast
  let ?L = "addTransceivers_loop (specs_of ?added) (p, recvMap pw)"
  let ?pw = "pw\<lparr>pc := Some (fst ?L), recvMap := snd ?L\<rparr>"
  have W: "pcwraps ?st w = Some ?pw"
    using upsert_existing_wrapper[OF found u w pw(3,4,5)] by (simp add: added_pushers_def)
  note P = addTransceivers_loop_props[of "recvMap pw" "specs_of ?added" p]
  have ids: "map pusher_id (specs_of ?added) = map pusherId ?added"
    by (simp add: specs_of_def comp_def)
  have g: "grown pw ?pw"
    using P pw(5) by (simp add: grown_def)
  have T: "table_wf ?st" "unique_ids nfc ?st"
    using upsert_table_inv[OF nfc, of st user] i by (simp_all add: inv_def)
  have n: "nextRef st \<le> nextRef ?st" using F by simp
  have d: "distinct (remoteUsers ?st)" using F i by (simp add: inv_def)
  have wr: "\<forall>x < nextRef st. pcwraps ?st x = pcwraps st x \<or>
              (\<exists>pw pw'. pcwraps st x = Some pw \<and> pcwraps ?st x = Some pw' \<and>
                 direction pw = RecvOnly \<and> grown pw pw')"
  proof (intro allI impI)
    fix x assume "x < nextRef st"
    show "pcwraps ?st x = pcwraps st x \<or>
              (\<exists>pw pw'. pcwraps st x = Some pw \<and> pcwraps ?st x = Some pw' \<and>
                 direction pw = RecvOnly \<and> grown pw pw')"
    proof (cases "x = w")
      case True
      with pw(3,4) W g show ?thesis by blast
    next
      case False
      with F show ?thesis by simp
    qed
  qed
  have s1: "slots_ok ?st u'"
  proof -
    have "length (transceivers (fst ?L)) = length (snd ?L)"
      using P pw(6) by simp
    moreover have "set (map pusherId (pushers u')) \<subseteq> set (map fst (snd ?L))"
      using P pw(7) u'(5) ids by auto
    ultimately show ?thesis
      using u'(3,5) pw(1,2,4) n W by (simp add: slots_ok_def)
  qed
  have s2: "stream_ok ?st u'"
    using ok(3) u'(3,4) w F by (auto simp: stream_ok_def split: option.splits)
  have "inv nfc ?st"
  proof (rule inv_grow[OF i n T(1) d T(2) _ _ _ wr, of r])
    show "sendPcWarp ?st = sendPcWarp st" using F by simp
    show "calls ?st = calls st" using F by simp
    show "\<forall>x < nextRef st. streams ?st x = streams st x" using F by simp
    show "\<forall>q \<in> set (remoteUsers ?st). q \<noteq> r \<longrightarrow> q \<in> set (remoteUsers st) \<and> users ?st q = users st q"
      using F by simp
    show "r \<in> set (remoteUsers ?st) \<longrightarrow>
              (\<exists>u'. users ?st r = Some u' \<and> normalizeId nfc (JStr (userId u')) = userId u' \<and>
                 slots_ok ?st u' \<and> stream_ok ?st u' \<and>
                 (\<forall>x. receivePcWrap u' = Some x \<longrightarrow>
                    nextRef st \<le> x \<or>
                    (r \<in> set (remoteUsers st) \<and> (\<exists>u. users st r = Some u \<and> receivePcWrap u = Some x))))"
      using u' ok(1) s1 s2 rin u w by auto
  qed
  moreover have "fst (upsertRemoteUser nfc user st) = Inr r"
    by (rule upsert_existing_fst[OF found u w pw(3,4,5)])
  ultimately show ?thesis by simp
qed

lemma upsert_inv_no_wrapper:
  assumes nfc: "nfc_stable nfc" and i: "inv nfc st"
    and found: "find (same_id nfc st (p_userId user)) (remoteUsers st) = Some r"
    and u: "users st r = Some u" and w: "receivePcWrap u = None"
  shows "inv nfc (snd (upsertRemoteUser nfc user st)) \<and> fst (upsertRemoteUser nfc user st) = Inr r"
proof -
  let ?st = "snd (upsertRemoteUser nfc user st)"
  let ?added = "added_pushers u user"
  have rin: "r \<in> set (remoteUsers st)" using find_Some_D[OF found] by simp
  have ok: "normalizeId nfc (JStr (userId u)) = userId u" "slots_ok st u" "stream_ok st u"
    using i rin u by (auto simp: inv_def users_ok_def)
  have nos: "playStream u = None"
    using ok(3) w by (cases "playStream u") (simp_all add: stream_ok_def)
  have T: "table_wf ?st" "unique_ids nfc ?st"
    using upsert_table_inv[OF nfc, of st user] i by (simp_all add: inv_def)
  show ?thesis
  proof (cases "pushers u @ ?added = []")
    case True
    note E = upsert_name_only[OF found u w True]
    let ?u = "u\<lparr>userName := (case p_userName user of Some n \<Rightarrow> Some n | None \<Rightarrow> userName u),
               pushers := []\<rparr>"
    have "inv nfc ?st"
    proof (rule inv_grow[OF i _ T(1) _ T(2), of r])
      show "nextRef st \<le> nextRef ?st" by (simp add: E)
      show "distinct (remoteUsers ?st)" using i by (simp add: E inv_def)
      show "sendPcWarp ?st = sendPcWarp st" by (simp add: E)
      show "calls ?st = calls st" by (simp add: E)
      show "\<forall>x < nextRef st. streams ?st x = streams st x" by (simp add: E)
      show "\<forall>x < nextRef st. pcwraps ?st x = pcwraps st x \<or>
              (\<exists>pw pw'. pcwraps st x = Some pw \<and> pcwraps ?st x = Some pw' \<and>
                 direction pw = RecvOnly \<and> grown pw pw')"
        by (simp add: E)
      show "\<forall>q \<in> set (remoteUsers ?st). q \<noteq> r \<longrightarrow> q \<in> set (remoteUsers st) \<and> users ?st q = users st q"
        by (simp add: E)
      have "slots_ok ?st ?u" using w by (simp add: slots_ok_def)
      moreover have "stream_ok ?st ?u" using w nos by (simp add: stream_ok_def)
      ultimately show "r \<in> set (remoteUsers ?st) \<longrightarrow>
              (\<exists>u'. users ?st r = Some u' \<and> normalizeId nfc (JStr (userId u')) = userId u' \<and>
                 slots_ok ?st u' \<and> stream_ok ?st u' \<and>
                 (\<forall>x. receivePcWrap u' = Some x \<longrightarrow>
                    nextRef st \<le> x \<or>
                    (r \<in> set (remoteUsers st) \<and> (\<exists>u. users st r = Some u \<and> receivePcWrap u = Some x))))"
        using ok(1) w by (simp add: E)
    qed
    then show ?thesis by (simp add: E)
  next
    case False
    from upsert_new_wrapper[OF found u w False] obtain pw p where
      N: "fst (upsertRemoteUser nfc user st) = Inr r"
        "direction pw = RecvOnly" "pc pw = Some p"
        "length (transceivers p) = length (recvMap pw)"
        "set (map fst (recvMap pw)) = set (map pusherId (pushers u @ ?added))"
        "users ?st =
             (users st)(r := Some (u
                \<lparr>userName := (case p_userName user of Some n \<Rightarrow> Some n | None \<Rightarrow> userName u),
                 pushers := pushers u @ ?added,
                 receivePcWrap := Some (nextRef st), playStream := Some (nextRef st + 1)\<rparr>))"
        "pcwraps ?st = (pcwraps st)(nextRef st := Some pw)"
        "streams ?st = (streams st)(nextRef st + 1 := Some [])"
        "nextRef ?st = nextRef st + 2"
        "remoteUsers ?st = remoteUsers st"
        "calls ?st = calls st"
        "sendPcWarp ?st = sendPcWarp st"
      by blast
    let ?u = "u\<lparr>userName := (case p_userName user of Some n \<Rightarrow> Some n | None \<Rightarrow> userName u),
                 pushers := pushers u @ ?added,
                 receivePcWrap := Some (nextRef st), playStream := Some (nextRef st + 1)\<rparr>"
    have "inv nfc ?st"
    proof (rule inv_grow[OF i _ T(1) _ T(2), of r])
      show "nextRef st \<le> nextRef ?st" by (simp add: N)
      show "distinct (remoteUsers ?st)" using i by (simp add: N inv_def)
      show "sendPcWarp ?st = sendPcWarp st" by (simp add: N)
      show "calls ?st = calls st" by (simp add: N)
      show "\<forall>x < nextRef st. streams ?st x = streams st x" by (simp add: N)
      show "\<forall>x < nextRef st. pcwraps ?st x = pcwraps st x \<or>
              (\<exists>pw pw'. pcwraps st x = Some pw \<and> pcwraps ?st x = Some pw' \<and>
                 direction pw = RecvOnly \<and> grown pw pw')"
        by (simp add: N)
      show "\<forall>q \<in> set (remoteUsers ?st). q \<noteq> r \<longrightarrow> q \<in> set (remoteUsers st) \<and> users ?st q = users st q"
        by (simp add: N)
      have "slots_ok ?st ?u"
        using False N(2,3,4,5) by (simp add: slots_ok_def N(7,9))
      moreover have "stream_ok ?st ?u"
        by (simp add: stream_ok_def N(8,9))
      ultimately show "r \<in> set (remoteUsers ?st) \<longrightarrow>
              (\<exists>u'. users ?st r = Some u' \<and> normalizeId nfc (JStr (userId u')) = userId u' \<and>
                 slots_ok ?st u' \<and> stream_ok ?st u' \<and>
                 (\<forall>x. receivePcWrap u' = Some x \<longrightarrow>
                    nextRef st \<le> x \<or>
                    (r \<in> set (remoteUsers st) \<and> (\<exists>u. users st r = Some u \<and> receivePcWrap u = Some x))))"
        using ok(1) by (simp add: N(6))
    qed
    then show ?thesis using N(1) by simp
  qed
qed

lemma upsert_inv_create:
  assumes nfc: "nfc_stable nfc" and i: "inv nfc st"
    and nf: "find (same_id nfc st (p_userId user)) (remoteUsers st) = None"
  shows "inv nfc (snd (upsertRemoteUser nfc user st)) \<and>
         fst (upsertRemoteUser nfc user st) = Inr (nextRef st) \<and>
         nextRef st \<in> set (remoteUsers (snd (upsertRemoteUser nfc user st)))"
proof -
  let ?st = "snd (upsertRemoteUser nfc user st)"
  let ?ps = "case p_pushers user of Some ps \<Rightarrow> ps | None \<Rightarrow> []"
  let ?n = "nextRef st"
  have T: "table_wf ?st" "unique_ids nfc ?st"
    using upsert_table_inv[OF nfc, of st user] i by (simp_all add: inv_def)
  have fresh: "?n \<notin> set (remoteUsers st)"
    using i by (auto simp: inv_def table_wf_def)
  have d: "distinct (remoteUsers st @ [?n])"
    using i fresh by (simp add: inv_def)
  have norm: "normalizeId nfc (JStr (normalizeId nfc (p_userId user))) = normalizeId nfc (p_userId user)"
    by (rule normalizeId_idem[OF nfc])
  show ?thesis
  proof (cases "?ps = []")
    case True
    note E = upsert_create_plain[OF nf True]
    let ?u = "\<lparr>userId = normalizeId nfc (p_userId user), userName = p_userName user,
                    pushers = [], videoRef = None, receivePcWrap = None, playStream = None,
                    videoMuted = None, audioMuted = None, state = None\<rparr>"
    have "inv nfc ?st"
    proof (rule inv_grow[OF i _ T(1) _ T(2), of ?n])
      show "nextRef st \<le> nextRef ?st" by (simp add: E)
      show "distinct (remoteUsers ?st)" using d by (simp add: E)
      show "sendPcWarp ?st = sendPcWarp st" by (simp add: E)
      show "calls ?st = calls st" by (simp add: E)
      show "\<forall>x < nextRef st. streams ?st x = streams st x" by (simp add: E)
      show "\<forall>x < nextRef st. pcwraps ?st x = pcwraps st x \<or>
              (\<exists>pw pw'. pcwraps st x = Some pw \<and> pcwraps ?st x = Some pw' \<and>
                 direction pw = RecvOnly \<and> grown pw pw')"
        by (simp add: E)
      show "\<forall>q \<in> set (remoteUsers ?st). q \<noteq> ?n \<longrightarrow> q \<in> set (remoteUsers st) \<and> users ?st q = users st q"
        by (simp add: E)
      have "slots_ok ?st ?u" by (simp add: slots_ok_def)
      moreover have "stream_ok ?st ?u" by (simp add: stream_ok_def)
      ultimately show "?n \<in> set (remoteUsers ?st) \<longrightarrow>
              (\<exists>u'. users ?st ?n = Some u' \<and> normalizeId nfc (JStr (userId u')) = userId u' \<and>
                 slots_ok ?st u' \<and> stream_ok ?st u' \<and>
                 (\<forall>x. receivePcWrap u' = Some x \<longrightarrow>
                    nextRef st \<le> x \<or>
                    (?n \<in> set (remoteUsers st) \<and> (\<exists>u. users st ?n = Some u \<and> receivePcWrap u = Some x))))"
        using norm by (simp add: E)
    qed
    then show ?thesis by (simp add: E)
  next
    case False
    from upsert_create_wrapper[OF nf False] obtain pw p where
      N: "direction pw = RecvOnly" "pc pw = Some p"
        "length (transceivers p) = length (recvMap pw)"
        "set (map fst (recvMap pw)) = set (map pusherId ?ps)"
      and E: "upsertRemoteUser nfc user st =
           (Inr (nextRef st),
            st\<lparr>users := (users st)(nextRef st := Some
                   \<lparr>userId = normalizeId nfc (p_userId user), userName = p_userName user,
                    pushers = ?ps,
                    videoRef = None, receivePcWrap = Some (nextRef st + 1),
                    playStream = Some (nextRef st + 2),
                    videoMuted = Some False, audioMuted = Some False, state = None\<rparr>),
               pcwraps := (pcwraps st)(nextRef st + 1 := Some pw),
               streams := (streams st)(nextRef st + 2 := Some []),
               nextRef := nextRef st + 3,
               remoteUsers := remoteUsers st @ [nextRef st]\<rparr>)"
      by blast
    let ?u = "\<lparr>userId = normalizeId nfc (p_userId user), userName = p_userName user,
                    pushers = ?ps,
                    videoRef = None, receivePcWrap = Some (nextRef st + 1),
                    playStream = Some (nextRef st + 2),
                    videoMuted = Some False, audioMuted = Some False, state = None\<rparr>"
    have "inv nfc ?st"
    proof (rule inv_grow[OF i _ T(1) _ T(2), of ?n])
      show "nextRef st \<le> nextRef ?st" by (simp add: E)
      show "distinct (remoteUsers ?st)" using d by (simp add: E)
      show "sendPcWarp ?st = sendPcWarp st" by (simp add: E)
      show "calls ?st = calls st" by (simp add: E)
      show "\<forall>x < nextRef st. streams ?st x = streams st x" by (simp add: E)
      show "\<forall>x < nextRef st. pcwraps ?st x = pcwraps st x \<or>
              (\<exists>pw pw'. pcwraps st x = Some pw \<and> pcwraps ?st x = Some pw' \<and>
                 direction pw = RecvOnly \<and> grown pw pw')"
        by (simp add: E)
      show "\<forall>q \<in> set (remoteUsers ?st). q \<noteq> ?n \<longrightarrow> q \<in> set (remoteUsers st) \<and> users ?st q = users st q"
        by (simp add: E)
      have "slots_ok ?st ?u"
        using False N by (simp add: slots_ok_def E)
      moreover have "stream_ok ?st ?u"
        by (simp add: stream_ok_def E)
      ultimately show "?n \<in> set (remoteUsers ?st) \<longrightarrow>
              (\<exists>u'. users ?st ?n = Some u' \<and> normalizeId nfc (JStr (userId u')) = userId u' \<and>
                 slots_ok ?st u' \<and> stream_ok ?st u' \<and>
                 (\<forall>x. receivePcWrap u' = Some x \<longrightarrow>
                    nextRef st \<le> x \<or>
                    (?n \<in> set (remoteUsers st) \<and> (\<exists>u. users st ?n = Some u \<and> receivePcWrap u = Some x))))"
        using norm by (simp add: E)
    qed
    then show ?thesis by (simp add: E)
  qed
qed

lemma upsert_inv:
  assumes nfc: "nfc_stable nfc" and i: "inv nfc st"
  shows "inv nfc (snd (upsertRemoteUser nfc user st)) \<and>
         (\<exists>r. fst (upsertRemoteUser nfc user st) = Inr r \<and>
              r \<in> set (remoteUsers (snd (upsertRemoteUser nfc user st))))"
proof (cases "find (same_id nfc st (p_userId user)) (remoteUsers st)")
  case None
  from upsert_inv_create[OF nfc i None] show ?thesis by blast
next
  case (Some r)
  have rin: "r \<in> set (remoteUsers st)" using find_Some_D[OF Some] by simp
  then obtain u where u: "users st r = Some u"
    using i by (auto simp: inv_def users_ok_def split: option.splits)
  have tbl: "remoteUsers (snd (upsertRemoteUser nfc user st)) = remoteUsers st"
    using upsert_existing[OF Some] by simp
  show ?thesis
  proof (cases "receivePcWrap u")
    case None
    from upsert_inv_no_wrapper[OF nfc i Some u None] rin tbl show ?thesis by simp
  next
    case (Some w)
    from upsert_inv_wrapper[OF nfc i \<open>find (same_id nfc st (p_userId user)) (remoteUsers st) = Some r\<close> u Some]
      rin tbl show ?thesis by simp
  qed
qed

subsection \<open>The invariant in every reachable state\<close>

lemma upsert_then_pull_inv:
  assumes nfc: "nfc_stable nfc" and i: "inv nfc st"
  shows "\<exists>r st' u. upsertRemoteUser nfc user st = (Inr r, st') \<and> inv nfc st' \<and>
           users st' r = Some u \<and>
           inv nfc (pullRemoteUser (roomId st') (userId u) (specs_of (pushers u)) st' ) \<or>
         (\<exists>r st' u. upsertRemoteUser nfc user st = (Inr r, st') \<and> inv nfc st' \<and>
            users st' r = Some u \<and> pushers u = [])"
proof -
  obtain x st' where e: "upsertRemoteUser nfc user st = (x, st')"
    by (cases "upsertRemoteUser nfc user st")
  from upsert_inv[OF nfc i, of user] e obtain r where
    r: "x = Inr r" "r \<in> set (remoteUsers st')" and i': "inv nfc st'"
    by auto
  from i' r(2) obtain u where u: "users st' r = Some u"
    by (auto simp: inv_def users_ok_def split: option.splits)
  show ?thesis
  proof (cases "pushers u = []")
    case True
    with e r(1) i' u show ?thesis by auto
  next
    case False
    have "inv nfc (pullRemoteUser (roomId st') (userId u) (specs_of (pushers u)) st')"
      by (rule pull_inv[OF i' r(2) u False])
    with e r(1) i' u show ?thesis by auto
  qed
qed

lemma newUser_loop_inv:
  assumes nfc: "nfc_stable nfc"
  shows "inv nfc st \<Longrightarrow> inv nfc (newUser_loop nfc us st)"
proof (induction us arbitrary: st)
  case Nil
  then show ?case by simp
next
  case (Cons user us)
  from upsert_then_pull_inv[OF nfc Cons.prems, of user] show ?case
  proof (elim disjE exE conjE)
    fix r st' u
    assume a: "upsertRemoteUser nfc user st = (Inr r, st')" "users st' r = Some u"
      "inv nfc (pullRemoteUser (roomId st') (userId u) (specs_of (pushers u)) st')" "inv nfc st'"
    show ?thesis
    proof (cases "pushers u = []")
      case True
      with a Cons.IH[of st'] show ?thesis by simp
    next
      case False
      with a Cons.IH[of "pullRemoteUser (roomId st') (userId u) (specs_of (pushers u)) st'"]
      show ?thesis by simp
    qed
  next
    fix r st' u
    assume a: "upsertRemoteUser nfc user st = (Inr r, st')" "users st' r = Some u"
      "pushers u = []" "inv nfc st'"
    with Cons.IH[of st'] show ?thesis by simp
  qed
qed

lemma newPusher_inv:
  assumes nfc: "nfc_stable nfc" and i: "inv nfc st"
  shows "inv nfc (onNotification nfc now (NewPusher user) st)"
  using upsert_then_pull_inv[OF nfc i, of user]
  by (auto simp: onNotification_def)

lemma upsert_all_inv:
  assumes nfc: "nfc_stable nfc"
  shows "inv nfc st \<Longrightarrow> inv nfc (snd (upsert_all nfc us st))"
proof (induction us arbitrary: st)
  case Nil
  then show ?case by simp
next
  case (Cons user us)
  obtain x st' where e: "upsertRemoteUser nfc user st = (x, st')"
    by (cases "upsertRemoteUser nfc user st")
  from upsert_inv[OF nfc Cons.prems, of user] e obtain r where
    r: "x = Inr r" and i': "inv nfc st'"
    by auto
  from Cons.IH[OF i'] e r show ?case by simp
qed

lemma pull_fold_inv:
  "inv nfc st \<Longrightarrow> set rs \<subseteq> set (remoteUsers st) \<Longrightarrow>
   inv nfc (foldl (\<lambda>s r. case users s r of
                     Some user \<Rightarrow>
                       if length (pushers user) > 0
                       then pullRemoteUser (roomId s) (userId user) (specs_of (pushers user)) s
                       else s
                   | None \<Rightarrow> s) st rs)"
proof (induction rs arbitrary: st)
  case Nil
  then show ?case by simp
next
  case (Cons r rs)
  let ?f = "\<lambda>s r. case users s r of
                     Some user \<Rightarrow>
                       if length (pushers user) > 0
                       then pullRemoteUser (roomId s) (userId user) (specs_of (pushers user)) s
                       else s
                   | None \<Rightarrow> s"
  have r: "r \<in> set (remoteUsers st)" using Cons.prems(2) by simp
  have t: "remoteUsers (?f st r) = remoteUsers st"
    by (simp add: pull_table split: option.splits)
  have i: "inv nfc (?f st r)"
  proof (cases "users st r")
    case None
    with Cons.prems(1) show ?thesis by simp
  next
    case (Some u)
    show ?thesis
    proof (cases "pushers u = []")
      case True
      with Some Cons.prems(1) show ?thesis by simp
    next
      case False
      from pull_inv[OF Cons.prems(1) r Some False, of "roomId st"] Some False
      show ?thesis by simp
    qed
  qed
  have "set rs \<subseteq> set (remoteUsers (?f st r))"
    using Cons.prems(2) t by simp
  from Cons.IH[OF i this] show ?case by simp
qed

lemma pull_all_inv: "inv nfc st \<Longrightarrow> inv nfc (pull_all st)"
  unfolding pull_all_def by (rule pull_fold_inv) simp_all

lemma inv_same:
  assumes "inv nfc st" and "remoteUsers st' = remoteUsers st" and "nextRef st' = nextRef st"
    and "users st' = users st" and "streams st' = streams st" and "sendPcWarp st' = sendPcWarp st"
    and "pcwraps st' = pcwraps st" and "calls st' = calls st"
  shows "inv nfc st'"
  using assms(1)
  by (rule calm_inv[OF quiet_same[OF assms(2,3,4,5)] kept_same[OF assms(6,7,8)]])

lemma onJoin_response_inv:
  assumes nfc: "nfc_stable nfc" and i: "inv nfc st"
  shows "inv nfc (onJoin_response nfc resp st)"
proof (cases resp)
  case (Inl e)
  have "inv nfc (alert ''Join failed'' st)"
    by (rule calm_inv[OF quiet_alert kept_alert i])
  with Inl show ?thesis by (simp add: onJoin_response_def)
next
  case (Inr response)
  let ?st1 = "st\<lparr>wsStatus := WsJoined\<rparr>"
  have i1: "inv nfc ?st1"
    by (rule inv_same[OF i]) simp_all
  define x where "x = (if j_code response = 0
            then (case j_users response of Some us \<Rightarrow> upsert_all nfc us ?st1 | None \<Rightarrow> (None, ?st1))
            else (None, ?st1))"
  have i2: "inv nfc (snd x)"
    using i1 upsert_all_inv[OF nfc i1] by (simp add: x_def split: option.splits)
  have a: "inv nfc (alert ''Join failed'' (snd x))"
    by (rule calm_inv[OF quiet_alert kept_alert i2])
  have b: "inv nfc (pull_all (snd x))"
    by (rule pull_all_inv[OF i2])
  have e: "onJoin_response nfc resp st =
          (case fst x of Some e \<Rightarrow> alert ''Join failed'' (snd x) | None \<Rightarrow> pull_all (snd x))"
    unfolding x_def using Inr by (simp add: onJoin_response_def Let_def case_prod_beta)
  show ?thesis
    unfolding e using a b by (cases "fst x") simp_all
qed

lemma onNotification_inv:
  assumes nfc: "nfc_stable nfc" and i: "inv nfc st"
  shows "inv nfc (onNotification nfc now n st)"
proof (cases n)
  case (NewUser us)
  with newUser_loop_inv[OF nfc i] show ?thesis by (simp add: onNotification_def)
next
  case (UserDisconnect v)
  with calm_inv[OF quiet_set_user_state kept_set_user_state i] show ?thesis
    by (simp add: onNotification_def)
next
  case (UserReconnect v)
  with calm_inv[OF quiet_set_user_state kept_set_user_state i] show ?thesis
    by (simp add: onNotification_def)
next
  case (NewPusher user)
  with newPusher_inv[OF nfc i] show ?thesis by simp
next
  case (TextMessage uid uname msg)
  have "inv nfc (st\<lparr>chatMessages := x\<rparr>)" for x
    by (rule inv_same[OF i]) simp_all
  with TextMessage i show ?thesis
    by (simp add: onNotification_def split: jsval.splits)
next
  case (UserLeave v)
  with userLeave_inv[OF i] show ?thesis by (simp add: onNotification_def)
next
  case (OtherMethod m)
  with i show ?thesis by (simp add: onNotification_def)
qed

lemma step_inv:
  assumes nfc: "nfc_stable nfc" and i: "inv nfc st"
  shows "inv nfc (step nfc ev st)"
proof (cases ev)
  case (Notification n now)
  with onNotification_inv[OF nfc i] show ?thesis by (simp add: step_def)
next
  case (ToggleAudio r)
  with i calm_inv[OF quiet_toggleAudioMute kept_toggleAudioMute i] show ?thesis
    by (simp add: step_def)
next
  case (ToggleVideo r)
  with i calm_inv[OF quiet_toggleVideoMute kept_toggleVideoMute i] show ?thesis
    by (simp add: step_def)
next
  case (VideoRef r v)
  have a: "inv nfc (st\<lparr>videoEls := x\<rparr>)" for x
    by (rule inv_same[OF i]) simp_all
  have "inv nfc (setVideoRef r v s)" if "inv nfc s" for s
    by (rule calm_inv[OF quiet_setVideoRef kept_setVideoRef that])
  with VideoRef i a show ?thesis
    by (simp add: step_def split: option.splits)
next
  case JoinClick
  with calm_inv[OF quiet_onJoin kept_onJoin i] show ?thesis by (simp add: step_def)
next
  case (JoinConnected res)
  with calm_inv[OF quiet_onJoin_connected kept_onJoin_connected i] show ?thesis by (simp add: step_def)
next
  case (JoinResponse resp)
  with onJoin_response_inv[OF nfc i] show ?thesis by (simp add: step_def)
next
  case (OpenDevicesClick gum offer resp)
  with onOpenDevices_inv[OF i] show ?thesis by (simp add: step_def)
next
  case (OfferResult c offer)
  with calm_inv[OF quiet_pull_offerResult kept_pull_offerResult i] show ?thesis by (simp add: step_def)
next
  case (PullResponse c resp)
  with calm_inv[OF quiet_pull_response kept_pull_response i] show ?thesis by (simp add: step_def)
next
  case (TrackEvent w t)
  with calm_inv[OF quiet_dispatch_track kept_dispatch_track i] show ?thesis by (simp add: step_def)
next
  case (Resume c)
  with calm_inv[OF quiet_pull_resume kept_pull_resume i] show ?thesis by (simp add: step_def)
qed

lemma run_inv:
  assumes nfc: "nfc_stable nfc"
  shows "inv nfc st \<Longrightarrow> inv nfc (run nfc evs st)"
proof (induction evs arbitrary: st)
  case Nil
  then show ?case by simp
next
  case (Cons ev evs)
  from Cons.IH[OF step_inv[OF nfc Cons.prems]] show ?case by simp
qed

lemma init_inv: "inv nfc (init_state room)"
  by (simp add: inv_def init_state_def table_wf_def unique_ids_def table_keys_def users_ok_def
      wrappers_apart_def send_ok_def calls_ok_def)

lemma reachable_inv: "nfc_stable nfc \<Longrightarrow> inv nfc (run nfc evs (init_state room))"
  by (rule run_inv[OF _ init_inv])

end
